theory Spec2Isabelle
  imports Main "HOL-Library.Word"
begin

section \<open>Data model of \<open>store/piece_store.go\<close>\<close>

text \<open>
  Go's \<open>uint64\<close> is a 64-bit word (addition and subtraction wrap), \<open>byte\<close> an 8-bit
  word, a \<open>[]byte\<close> a list of bytes. Go's \<open>int\<close> is taken as 64 bits wide.
\<close>

type_synonym byte = "8 word"
type_synonym u64 = "64 word"

text \<open>
  Run-time panics of the Go code (a nil pointer dereference, an index or a slice bound
  out of range, \<open>cid.MustParse\<close> on an identifier that does not parse) are values.
\<close>

datatype panic = NilDereference | IndexOutOfRange | SliceBounds | MustParse

text \<open>
  The errors the code returns. The code builds them with \<open>errors.New\<close> and
  \<open>errors.Wrap\<close>; the constructors stand for the messages
  "no Blocks provided" (\<open>EmptyPlan\<close>),
  "first block must start at car Header" (\<open>HeaderMisalignment\<close>),
  "last block must end at car footer" (\<open>FooterMisalignment\<close>),
  "Blocks must be contiguous" (\<open>NonContiguous\<close>),
  "block must be either raw or Item, and the Item/source needs to be preloaded"
  (\<open>UnresolvableReference\<close>),
  "failed to get handler" (\<open>GetHandlerFailure\<close>),
  "failed to read Item" (\<open>SourceReadFailure\<close>), and \<open>io.EOF\<close>;
  \<open>StreamFailure\<close> is an error of a source stream itself, before it is wrapped.
\<close>

datatype error =
    EmptyPlan
  | HeaderMisalignment
  | FooterMisalignment
  | NonContiguous
  | UnresolvableReference
  | GetHandlerFailure
  | SourceReadFailure
  | StreamFailure
  | EOF
  | Panic panic

text \<open>
  \<open>datasource.Handler\<close> is an interface of another package: its method
  \<open>Read(ctx, path, offset, length)\<close> returns a forward-only stream or an error. A
  handler is taken as the function from the three arguments to the bytes the returned
  stream will deliver (\<open>None\<close>: the open failed).
\<close>

type_synonym handler = "string \<Rightarrow> u64 \<Rightarrow> u64 \<Rightarrow> byte list option"

text \<open>The fields of \<open>model.Item\<close> the code reads.\<close>

record Item =
  ID :: u64
  Path :: string
  Size :: u64

record ItemBlockMetadata =
  PieceOffset :: u64
  Varint :: "byte list"
  Cid :: "byte list"
  ItemOffset :: u64
  ItemLength :: u64

definition CidOffset :: "ItemBlockMetadata \<Rightarrow> u64" where
  "CidOffset i = PieceOffset i + of_nat (length (Varint i))"

definition BlockOffset :: "ItemBlockMetadata \<Rightarrow> u64" where
  "BlockOffset i = PieceOffset i + of_nat (length (Varint i)) + of_nat (length (Cid i))"

definition EndOffset :: "ItemBlockMetadata \<Rightarrow> u64" where
  "EndOffset i =
     PieceOffset i + of_nat (length (Varint i)) + of_nat (length (Cid i)) + ItemLength i"

record RawBlock =
  raw_PieceOffset :: u64
  raw_Varint :: "byte list"
  raw_Cid :: "byte list"
  BlockData :: "byte list"

definition raw_CidOffset :: "RawBlock \<Rightarrow> u64" where
  "raw_CidOffset r = raw_PieceOffset r + of_nat (length (raw_Varint r))"

definition raw_BlockOffset :: "RawBlock \<Rightarrow> u64" where
  "raw_BlockOffset r =
     raw_PieceOffset r + of_nat (length (raw_Varint r)) + of_nat (length (raw_Cid r))"

definition raw_EndOffset :: "RawBlock \<Rightarrow> u64" where
  "raw_EndOffset r =
     raw_PieceOffset r + of_nat (length (raw_Varint r)) + of_nat (length (raw_Cid r))
       + of_nat (length (BlockData r))"

text \<open>\<open>Item\<close> is a pointer in the source: \<open>None\<close> is nil.\<close>

record ItemBlock =
  item_PieceOffset :: u64
  SourceHandler :: handler
  item_Item :: "Item option"
  Meta :: "ItemBlockMetadata list"

text \<open>The interface \<open>PieceBlock\<close> has the two implementations \<open>RawBlock\<close> and \<open>ItemBlock\<close>.\<close>

datatype PieceBlock = PRaw RawBlock | PItem ItemBlock

fun GetPieceOffset :: "PieceBlock \<Rightarrow> u64" where
  "GetPieceOffset (PRaw r) = raw_PieceOffset r"
| "GetPieceOffset (PItem i) = item_PieceOffset i"

text \<open>
  An open \<open>io.ReadCloser\<close>: the bytes it has still to deliver, and whether \<open>Close\<close>
  has been called on it.
\<close>

record stream =
  pending :: "byte list"
  closed :: bool

record PieceReader =
  Blocks :: "PieceBlock list"
  reader :: "stream option"
  pos :: u64
  blockID :: nat
  innerBlockID :: nat
  blockOffset :: u64
  Header :: "byte list"

text \<open>
  The fields of \<open>model.Car\<close> and \<open>model.CarBlock\<close> the code reads. The type of a
  content identifier (\<open>'c\<close>) and of a source (\<open>'s\<close>) belong to other packages and are
  parameters; \<open>RawBlock\<close>, \<open>Item\<close> and \<open>Source\<close> are nil (\<open>None\<close>) or set.
\<close>

record Car =
  car_Header :: "byte list"
  FileSize :: u64

record ('c, 's) CarBlock =
  CarOffset :: u64
  CarBlockLength :: u64
  cb_Varint :: u64
  CID :: 'c
  cb_RawBlock :: "byte list option"
  cb_Item :: "Item option"
  Source :: "'s option"
  cb_ItemOffset :: u64
  BlockLength :: u64

section \<open>Library routines the code calls\<close>

text \<open>
  \<open>varint.ToUvarint\<close> (go-varint): the unsigned LEB128 encoding of a number, seven bits
  a byte, least significant group first, the top bit set on every byte but the last.
\<close>

fun uvarint :: "nat \<Rightarrow> byte list" where
  "uvarint n = (if n < 128 then [of_nat n] else of_nat (n mod 128 + 128) # uvarint (n div 128))"

declare uvarint.simps [simp del]

definition ToUvarint :: "u64 \<Rightarrow> byte list" where
  "ToUvarint num = uvarint (unat num)"

section \<open>\<open>NewPieceReader\<close>\<close>

text \<open>
  The first loop of \<open>NewPieceReader\<close> (lines 147 to 154): for every index but the last,
  the block must end where the next one starts, and it must be raw or carry both its
  item and its source.
\<close>

fun sanitize :: "('c, 's) CarBlock list \<Rightarrow> error option" where
  "sanitize (b # b' # bs) =
     (if CarOffset b + CarBlockLength b \<noteq> CarOffset b' then Some NonContiguous
      else if cb_RawBlock b = None \<and> (cb_Item b = None \<or> Source b = None)
        then Some UnresolvableReference
      else sanitize (b' # bs))"
| "sanitize _ = None"

text \<open>
  The metadata entry and the raw block built from a candidate; \<open>cid\<close> is the result of
  \<open>cid.MustParse(carBlock.CID).Bytes()\<close>.
\<close>

definition mk_meta :: "('c, 's) CarBlock \<Rightarrow> byte list \<Rightarrow> ItemBlockMetadata" where
  "mk_meta carBlock cid =
     \<lparr>PieceOffset = CarOffset carBlock, Varint = ToUvarint (cb_Varint carBlock), Cid = cid,
      ItemOffset = cb_ItemOffset carBlock, ItemLength = BlockLength carBlock\<rparr>"

definition mk_raw :: "('c, 's) CarBlock \<Rightarrow> byte list \<Rightarrow> byte list \<Rightarrow> RawBlock" where
  "mk_raw carBlock cid data =
     \<lparr>raw_PieceOffset = CarOffset carBlock, raw_Varint = ToUvarint (cb_Varint carBlock),
      raw_Cid = cid, BlockData = data\<rparr>"

text \<open>
  The state of the second loop (lines 157 to 206): \<open>blocks\<close>, \<open>lastItemBlock\<close> and, to
  observe the effect, the sources \<open>resolver.GetHandler\<close> has been called with, in order.
\<close>

record 's combine_state =
  blocks :: "PieceBlock list"
  lastItemBlock :: "ItemBlock option"
  resolved :: "'s list"

text \<open>
  Lines 160 to 163. The comparison of the item identities dereferences both
  \<open>Item\<close> pointers; it is evaluated only when \<open>lastItemBlock\<close> is set and the candidate is
  not raw.
\<close>

definition flush_last ::
  "('c, 's) CarBlock \<Rightarrow> 's combine_state \<Rightarrow> error + 's combine_state" where
  "flush_last carBlock st =
     (case lastItemBlock st of
        None \<Rightarrow> Inr st
      | Some l \<Rightarrow>
          if cb_RawBlock carBlock \<noteq> None
          then Inr (st\<lparr>blocks := blocks st @ [PItem l], lastItemBlock := None\<rparr>)
          else (case (item_Item l, cb_Item carBlock) of
                  (Some a, Some b) \<Rightarrow>
                    if ID a \<noteq> ID b
                    then Inr (st\<lparr>blocks := blocks st @ [PItem l], lastItemBlock := None\<rparr>)
                    else Inr st
                | _ \<Rightarrow> Inl (Panic NilDereference)))"

text \<open>Lines 164 to 205: the rest of the loop body.\<close>

definition add_block ::
  "('c \<Rightarrow> byte list option) \<Rightarrow> ('s \<Rightarrow> handler option) \<Rightarrow> ('c, 's) CarBlock \<Rightarrow>
   's combine_state \<Rightarrow> error + 's combine_state" where
  "add_block parse resolver carBlock st =
     (case cb_RawBlock carBlock of
        Some data \<Rightarrow>
          (case parse (CID carBlock) of
             None \<Rightarrow> Inl (Panic MustParse)
           | Some cid \<Rightarrow> Inr (st\<lparr>blocks := blocks st @ [PRaw (mk_raw carBlock cid data)]\<rparr>))
      | None \<Rightarrow>
          (case lastItemBlock st of
             None \<Rightarrow>
               (case Source carBlock of
                  None \<Rightarrow> Inl (Panic NilDereference)
                | Some src \<Rightarrow>
                    (case resolver src of
                       None \<Rightarrow> Inl GetHandlerFailure
                     | Some h \<Rightarrow>
                         (case parse (CID carBlock) of
                            None \<Rightarrow> Inl (Panic MustParse)
                          | Some cid \<Rightarrow>
                              Inr (st\<lparr>lastItemBlock :=
                                     Some \<lparr>item_PieceOffset = CarOffset carBlock,
                                           SourceHandler = h,
                                           item_Item = cb_Item carBlock,
                                           Meta = [mk_meta carBlock cid]\<rparr>\<rparr>))))
           | Some l \<Rightarrow>
               (case parse (CID carBlock) of
                  None \<Rightarrow> Inl (Panic MustParse)
                | Some cid \<Rightarrow>
                    Inr (st\<lparr>lastItemBlock :=
                           Some (l\<lparr>Meta := Meta l @ [mk_meta carBlock cid]\<rparr>)\<rparr>))))"

text \<open>
  The call of \<open>resolver.GetHandler\<close> on line 176 happens when the candidate is not raw,
  no item block is pending and the source pointer is set, whatever follows.
\<close>

definition note_resolved :: "('c, 's) CarBlock \<Rightarrow> 's combine_state \<Rightarrow> 's combine_state" where
  "note_resolved carBlock st =
     (case (cb_RawBlock carBlock, lastItemBlock st, Source carBlock) of
        (None, None, Some src) \<Rightarrow> st\<lparr>resolved := resolved st @ [src]\<rparr>
      | _ \<Rightarrow> st)"

fun combine ::
  "('c \<Rightarrow> byte list option) \<Rightarrow> ('s \<Rightarrow> handler option) \<Rightarrow> ('c, 's) CarBlock list \<Rightarrow>
   's combine_state \<Rightarrow> (error + PieceBlock list) \<times> 's list" where
  "combine parse resolver [] st =
     (Inr (case lastItemBlock st of None \<Rightarrow> blocks st | Some l \<Rightarrow> blocks st @ [PItem l]),
      resolved st)"
| "combine parse resolver (carBlock # rest) st =
     (case flush_last carBlock st of
        Inl e \<Rightarrow> (Inl e, resolved st)
      | Inr st1 \<Rightarrow>
          (let st2 = note_resolved carBlock st1 in
           case add_block parse resolver carBlock st2 of
             Inl e \<Rightarrow> (Inl e, resolved st2)
           | Inr st3 \<Rightarrow> combine parse resolver rest st3))"

text \<open>
  \<open>NewPieceReader\<close>: the result, and the sources the resolver was called with. The
  context argument is not modelled. \<open>parse\<close> stands for
  \<open>cid.MustParse(_).Bytes()\<close>, \<open>None\<close> where it panics.
\<close>

definition NewPieceReader ::
  "('c \<Rightarrow> byte list option) \<Rightarrow> Car \<Rightarrow> ('c, 's) CarBlock list \<Rightarrow> ('s \<Rightarrow> handler option) \<Rightarrow>
   (error + PieceReader) \<times> 's list" where
  "NewPieceReader parse car carBlocks resolver =
     (if carBlocks = [] then (Inl EmptyPlan, [])
      else if CarOffset (hd carBlocks) \<noteq> of_nat (length (car_Header car))
        then (Inl HeaderMisalignment, [])
      else if CarOffset (last carBlocks) + CarBlockLength (last carBlocks) \<noteq> FileSize car
        then (Inl FooterMisalignment, [])
      else (case sanitize carBlocks of
              Some e \<Rightarrow> (Inl e, [])
            | None \<Rightarrow>
                (case combine parse resolver carBlocks
                        \<lparr>blocks = [], lastItemBlock = None, resolved = []\<rparr> of
                   (Inl e, log) \<Rightarrow> (Inl e, log)
                 | (Inr bs, log) \<Rightarrow>
                     (Inr \<lparr>Blocks = bs, reader = None, pos = 0, blockID = 0, innerBlockID = 0,
                           blockOffset = 0, Header = car_Header car\<rparr>, log))))"

section \<open>Source streams\<close>

text \<open>
  \<open>io.Reader\<close> lets a stream deliver fewer bytes than asked for. \<open>chunk\<close> is the
  stream's choice: asked for \<open>req\<close> bytes with \<open>avail\<close> still pending, it delivers
  \<open>chunk req avail\<close> of them, clamped to at least one and at most \<open>min req avail\<close>.
  A stream with nothing pending reports \<open>io.EOF\<close>, a closed one an error.
\<close>

definition stream_Read ::
  "(nat \<Rightarrow> nat \<Rightarrow> nat) \<Rightarrow> stream \<Rightarrow> nat \<Rightarrow> byte list \<times> error option \<times> stream" where
  "stream_Read chunk s req =
     (if closed s then ([], Some StreamFailure, s)
      else if pending s = [] then ([], Some EOF, s)
      else if req = 0 then ([], None, s)
      else (let k = max 1 (min (chunk req (length (pending s))) (min req (length (pending s))))
            in (take k (pending s), None, s\<lparr>pending := drop k (pending s)\<rparr>)))"

text \<open>
  What a reader does to its sources: a successful and a failed call of the handler's
  \<open>Read\<close> (path, offset, length), a read of the open stream (bytes asked for, bytes
  delivered), and a call of the stream's \<open>Close\<close>.
\<close>

datatype event =
    EvOpen string u64 u64
  | EvOpenFailed string u64 u64
  | EvStreamRead nat nat
  | EvClose

section \<open>\<open>PieceReader.Read\<close>\<close>

text \<open>
  The state inside one call of \<open>Read\<close>: the reader, the bytes written so far (\<open>p[:n]\<close>)
  and the events so far. A step of the function body either falls through to the next
  statement or returns.
\<close>

type_synonym local = "PieceReader \<times> byte list \<times> event list"

datatype flow = Next local | Return "error option" local

definition and_then :: "flow \<Rightarrow> (local \<Rightarrow> flow) \<Rightarrow> flow" where
  "and_then f g = (case f of Next st \<Rightarrow> g st | Return e st \<Rightarrow> Return e st)"

text \<open>
  The pattern the body repeats five times (lines 226-233, 236-243, 244-251, 252-259,
  278-285, 286-293):
  \<^verbatim>\<open>if pr.pos < bound { copied := copy(p[n:], src[pr.pos-base:]); pr.pos += uint64(copied);
     n += copied; if n == len(p) { return n, nil } }\<close>
  Slicing \<open>src\<close> beyond its length panics.
\<close>

definition copy_step :: "nat \<Rightarrow> u64 \<Rightarrow> byte list \<Rightarrow> u64 \<Rightarrow> local \<Rightarrow> flow" where
  "copy_step plen bound src base st =
     (case st of (pr, out, tr) \<Rightarrow>
        if pos pr < bound then
          (if length src < unat (pos pr - base) then Return (Some (Panic SliceBounds)) (pr, [], tr)
           else (let copied = take (plen - length out) (drop (unat (pos pr - base)) src);
                     pr' = pr\<lparr>pos := pos pr + of_nat (length copied)\<rparr>;
                     out' = out @ copied
                 in if length out' = plen then Return None (pr', out', tr)
                    else Next (pr', out', tr)))
        else Next (pr, out, tr))"

text \<open>Lines 235 to 263: the current block is a raw block.\<close>

definition Read_raw :: "nat \<Rightarrow> RawBlock \<Rightarrow> local \<Rightarrow> flow" where
  "Read_raw plen rawBlock st =
     and_then (copy_step plen (raw_CidOffset rawBlock) (raw_Varint rawBlock)
                 (raw_PieceOffset rawBlock) st)
     (\<lambda>st. and_then (copy_step plen (raw_BlockOffset rawBlock) (raw_Cid rawBlock)
                 (raw_CidOffset rawBlock) st)
     (\<lambda>st. and_then (copy_step plen (raw_EndOffset rawBlock) (BlockData rawBlock)
                 (raw_BlockOffset rawBlock) st)
     (\<lambda>(pr, out, tr). Return None (pr\<lparr>blockID := blockID pr + 1, innerBlockID := 0\<rparr>, out, tr))))"

text \<open>
  Lines 267 to 277: with no stream open, the handler is asked for the item from
  \<open>innerBlock.ItemOffset + pr.blockOffset\<close> to the end of the item. A failure returns
  \<open>0\<close> and the wrapped error.
\<close>

definition open_reader :: "ItemBlock \<Rightarrow> ItemBlockMetadata \<Rightarrow> local \<Rightarrow> flow" where
  "open_reader itemBlock innerBlock st =
     (case st of (pr, out, tr) \<Rightarrow>
        (case reader pr of
           Some s \<Rightarrow> Next (pr, out, tr)
         | None \<Rightarrow>
             (case item_Item itemBlock of
                None \<Rightarrow> Return (Some (Panic NilDereference)) (pr, [], tr)
              | Some it \<Rightarrow>
                  (let off = ItemOffset innerBlock + blockOffset pr;
                       len = Size it - (ItemOffset innerBlock + blockOffset pr)
                   in case SourceHandler itemBlock (Path it) off len of
                        None \<Rightarrow>
                          Return (Some SourceReadFailure)
                            (pr, [], tr @ [EvOpenFailed (Path it) off len])
                      | Some bs \<Rightarrow>
                          Next (pr\<lparr>reader := Some \<lparr>pending = bs, closed = False\<rparr>\<rparr>, out,
                                tr @ [EvOpen (Path it) off len])))))"

text \<open>
  Lines 302 to 310: at the end of the entry the cursor moves to the next entry, and past
  the last entry to the next block, closing the stream.
\<close>

definition advance :: "ItemBlock \<Rightarrow> ItemBlockMetadata \<Rightarrow> PieceReader \<times> event list \<Rightarrow>
    PieceReader \<times> event list" where
  "advance itemBlock innerBlock st =
     (case st of (pr, tr) \<Rightarrow>
        if pos pr = EndOffset innerBlock then
          (if length (Meta itemBlock) \<le> innerBlockID pr + 1
           then (pr\<lparr>blockID := blockID pr + 1, innerBlockID := 0, reader := None\<rparr>,
                 tr @ [EvClose])
           else (pr\<lparr>innerBlockID := innerBlockID pr + 1\<rparr>, tr))
        else (pr, tr))"

text \<open>
  Lines 294 to 315. \<open>readTill\<close> is computed on Go's \<open>int\<close>: the conversion of the
  \<open>uint64\<close> difference reinterprets it as signed, the sum wraps, and slicing
  \<open>p[n:readTill]\<close> with \<open>readTill < n\<close> panics.
\<close>

definition read_payload ::
  "(nat \<Rightarrow> nat \<Rightarrow> nat) \<Rightarrow> nat \<Rightarrow> ItemBlock \<Rightarrow> ItemBlockMetadata \<Rightarrow> local \<Rightarrow> flow" where
  "read_payload chunk plen itemBlock innerBlock st =
     (case st of (pr, out, tr) \<Rightarrow>
        if pos pr < EndOffset innerBlock then
          (let readTill = min (int plen)
                 (sint (word_of_int (int (length out) + sint (EndOffset innerBlock - pos pr)) :: u64))
           in if readTill < int (length out) then Return (Some (Panic SliceBounds)) (pr, [], tr)
              else (case reader pr of
                      None \<Rightarrow> Return (Some (Panic NilDereference)) (pr, [], tr)
                    | Some s \<Rightarrow>
                        (case stream_Read chunk s (nat (readTill - int (length out))) of
                           (bs, err, s') \<Rightarrow>
                             (let pr1 = pr\<lparr>reader := Some s', pos := pos pr + of_nat (length bs)\<rparr>;
                                  out1 = out @ bs;
                                  tr1 = tr @ [EvStreamRead (nat (readTill - int (length out)))
                                                (length bs)]
                              in if err \<noteq> None \<and> err \<noteq> Some EOF
                                 then Return (Some SourceReadFailure) (pr1, out1, tr1)
                                 else (case advance itemBlock innerBlock (pr1, tr1) of
                                         (pr2, tr2) \<Rightarrow> Return None (pr2, out1, tr2))))))
        else Return None (pr, out, tr))"

text \<open>Lines 265 to 315: the current block is an item block.\<close>

definition Read_item :: "(nat \<Rightarrow> nat \<Rightarrow> nat) \<Rightarrow> nat \<Rightarrow> ItemBlock \<Rightarrow> local \<Rightarrow> flow" where
  "Read_item chunk plen itemBlock st =
     (case st of (pr, out, tr) \<Rightarrow>
        if length (Meta itemBlock) \<le> innerBlockID pr
        then Return (Some (Panic IndexOutOfRange)) (pr, [], tr)
        else (let innerBlock = Meta itemBlock ! innerBlockID pr in
              and_then (open_reader itemBlock innerBlock st)
              (\<lambda>st. and_then (copy_step plen (CidOffset innerBlock) (Varint innerBlock)
                          (PieceOffset innerBlock) st)
              (\<lambda>st. and_then (copy_step plen (BlockOffset innerBlock) (Cid innerBlock)
                          (CidOffset innerBlock) st)
              (read_payload chunk plen itemBlock innerBlock)))))"

text \<open>
  \<open>Read\<close> with a buffer of \<open>plen\<close> bytes: what it returns (the bytes \<open>p[:n]\<close> and the
  error), the reader afterwards, and the events of the call.
\<close>

definition Read ::
  "(nat \<Rightarrow> nat \<Rightarrow> nat) \<Rightarrow> PieceReader \<Rightarrow> nat \<Rightarrow>
   (byte list \<times> error option) \<times> PieceReader \<times> event list" where
  "Read chunk pr plen =
     (if length (Blocks pr) \<le> blockID pr then (([], Some EOF), pr, [])
      else (case and_then (copy_step plen (of_nat (length (Header pr))) (Header pr) 0 (pr, [], []))
                   (\<lambda>st. case Blocks pr ! blockID pr of
                            PRaw rawBlock \<Rightarrow> Read_raw plen rawBlock st
                          | PItem itemBlock \<Rightarrow> Read_item chunk plen itemBlock st) of
              Next (pr', out, tr) \<Rightarrow> ((out, None), pr', tr)
            | Return e (pr', out, tr) \<Rightarrow> ((out, e), pr', tr)))"

section \<open>\<open>PieceReader.Close\<close>\<close>

text \<open>
  Lines 325 to 330. The stream's own \<open>Close\<close> marks it closed; what it returns when the
  stream was closed before is the implementation's choice, the parameter \<open>reclose\<close>.
  The field \<open>reader\<close> is left as it is.
\<close>

definition Close :: "error option \<Rightarrow> PieceReader \<Rightarrow> error option \<times> PieceReader \<times> event list" where
  "Close reclose pr =
     (case reader pr of
        None \<Rightarrow> (None, pr, [])
      | Some s \<Rightarrow>
          (if closed s then reclose else None, pr\<lparr>reader := Some (s\<lparr>closed := True\<rparr>)\<rparr>, [EvClose]))"

section \<open>\<open>PieceReader.MakeCopy\<close>\<close>

text \<open>
  \<open>slices.BinarySearchFunc\<close> (golang.org/x/exp/slices): the smallest index at which
  \<open>cmp\<close> is not negative, or the length of the slice, and whether \<open>cmp\<close> is zero there.
\<close>

function bsearch_loop :: "('e \<Rightarrow> 't \<Rightarrow> int) \<Rightarrow> 'e list \<Rightarrow> 't \<Rightarrow> nat \<Rightarrow> nat \<Rightarrow> nat" where
  "bsearch_loop cmp x target i j =
     (if i < j then
        (let h = (i + j) div 2 in
         if cmp (x ! h) target < 0 then bsearch_loop cmp x target (h + 1) j
         else bsearch_loop cmp x target i h)
      else i)"
  by pat_completeness auto
termination
  by (relation "measure (\<lambda>(cmp, x, target, i, j). j - i)") auto

declare bsearch_loop.simps [simp del]

definition BinarySearchFunc :: "'e list \<Rightarrow> 't \<Rightarrow> ('e \<Rightarrow> 't \<Rightarrow> int) \<Rightarrow> nat \<times> bool" where
  "BinarySearchFunc x target cmp =
     (let i = bsearch_loop cmp x target 0 (length x)
      in (i, i < length x \<and> cmp (x ! i) target = 0))"

text \<open>
  Lines 89 to 122. The comparison functions convert the wrapped \<open>uint64\<close> difference
  to \<open>int\<close>. Indexing \<open>pr.Blocks\<close> or \<open>block.Meta\<close> at its length panics.
\<close>

definition MakeCopy :: "PieceReader \<Rightarrow> u64 \<Rightarrow> error + PieceReader" where
  "MakeCopy pr offset =
     (let newReader = \<lparr>Blocks = Blocks pr, reader = None, pos = offset, blockID = 0,
                        innerBlockID = 0, blockOffset = 0, Header = Header pr\<rparr>
      in if offset < of_nat (length (Header pr)) then Inr newReader
         else (let index = fst (BinarySearchFunc (Blocks pr) offset
                                  (\<lambda>b o'. sint (GetPieceOffset b - o')))
               in if length (Blocks pr) \<le> index then Inl (Panic IndexOutOfRange)
                  else (case Blocks pr ! index of
                          PRaw block \<Rightarrow>
                            Inr (newReader\<lparr>blockID := index,
                                   blockOffset := offset - raw_PieceOffset block\<rparr>)
                        | PItem block \<Rightarrow>
                            (let innerIndex = fst (BinarySearchFunc (Meta block) offset
                                                     (\<lambda>b o'. sint (PieceOffset b - o')))
                             in if length (Meta block) \<le> innerIndex
                                then Inl (Panic IndexOutOfRange)
                                else Inr (newReader\<lparr>blockID := index, innerBlockID := innerIndex,
                                            blockOffset := offset
                                              - PieceOffset (Meta block ! innerIndex)\<rparr>)))))"

section \<open>Terms of the specification\<close>

text \<open>
  The condition of line 151: the candidate is not raw and lacks its item or its source.
\<close>

definition unresolvable :: "('c, 's) CarBlock \<Rightarrow> bool" where
  "unresolvable b \<longleftrightarrow> cb_RawBlock b = None \<and> (cb_Item b = None \<or> Source b = None)"

text \<open>
  A gap or an overlap after candidate \<open>i\<close>: it has a successor, and its end offset
  (offset plus declared length) is not the successor's offset.
\<close>

definition gap_at :: "('c, 's) CarBlock list \<Rightarrow> nat \<Rightarrow> bool" where
  "gap_at bs i \<longleftrightarrow>
     Suc i < length bs \<and> CarOffset (bs ! i) + CarBlockLength (bs ! i) \<noteq> CarOffset (bs ! Suc i)"

section \<open>Observations on one call of \<open>Read\<close>\<close>

text \<open>
  What lines 267 to 277 do to the sources and to the field \<open>reader\<close>, as functions of
  the reader at the start of the call: the handler is called when no stream is held and
  the item is set.
\<close>

definition open_events :: "ItemBlock \<Rightarrow> ItemBlockMetadata \<Rightarrow> PieceReader \<Rightarrow> event list" where
  "open_events itemBlock innerBlock pr =
     (case (reader pr, item_Item itemBlock) of
        (None, Some it) \<Rightarrow>
          (let off = ItemOffset innerBlock + blockOffset pr; len = Size it - off
           in case SourceHandler itemBlock (Path it) off len of
                None \<Rightarrow> [EvOpenFailed (Path it) off len]
              | Some bs \<Rightarrow> [EvOpen (Path it) off len])
      | _ \<Rightarrow> [])"

definition opened_reader :: "ItemBlock \<Rightarrow> ItemBlockMetadata \<Rightarrow> PieceReader \<Rightarrow> stream option" where
  "opened_reader itemBlock innerBlock pr =
     (case (reader pr, item_Item itemBlock) of
        (None, Some it) \<Rightarrow>
          (case SourceHandler itemBlock (Path it) (ItemOffset innerBlock + blockOffset pr)
                  (Size it - (ItemOffset innerBlock + blockOffset pr)) of
             None \<Rightarrow> None
           | Some bs \<Rightarrow> Some \<lparr>pending = bs, closed = False\<rparr>)
      | (r, _) \<Rightarrow> r)"

text \<open>
  The number of open source streams a reader holds (none, or one that is not closed), the
  number of open streams after a sequence of events starting from \<open>n\<close> (a \<open>Close\<close>
  of a stream that is closed already releases nothing), and the largest number reached on
  the way.
\<close>

definition holds :: "PieceReader \<Rightarrow> nat" where
  "holds pr = (case reader pr of None \<Rightarrow> 0 | Some s \<Rightarrow> if closed s then 0 else 1)"

fun live :: "nat \<Rightarrow> event list \<Rightarrow> nat" where
  "live n [] = n"
| "live n (EvOpen path off len # es) = live (Suc n) es"
| "live n (EvClose # es) = live (n - 1) es"
| "live n (EvOpenFailed path off len # es) = live n es"
| "live n (EvStreamRead req got # es) = live n es"

fun peak :: "nat \<Rightarrow> event list \<Rightarrow> nat" where
  "peak n [] = n"
| "peak n (e # es) = max n (peak (live n [e]) es)"

text \<open>The kinds of events.\<close>

fun is_open :: "event \<Rightarrow> bool" where
  "is_open (EvOpen path off len) = True"
| "is_open (EvOpenFailed path off len) = True"
| "is_open _ = False"

fun is_stream_read :: "event \<Rightarrow> bool" where
  "is_stream_read (EvStreamRead req got) = True"
| "is_stream_read _ = False"

text \<open>
  A reader's lifetime: any sequence of calls of \<open>Read\<close> (with a buffer length) and
  \<open>Close\<close>, each on the reader the previous call left; the result is the final reader
  and all events in order.
\<close>

datatype call = CallRead nat | CallClose

fun run_calls ::
  "(nat \<Rightarrow> nat \<Rightarrow> nat) \<Rightarrow> error option \<Rightarrow> PieceReader \<Rightarrow> call list \<Rightarrow> PieceReader \<times> event list" where
  "run_calls chunk reclose pr [] = (pr, [])"
| "run_calls chunk reclose pr (CallRead plen # cs) =
     (case Read chunk pr plen of
        (res, pr', tr) \<Rightarrow>
          (case run_calls chunk reclose pr' cs of (pr'', tr') \<Rightarrow> (pr'', tr @ tr')))"
| "run_calls chunk reclose pr (CallClose # cs) =
     (case Close reclose pr of
        (e, pr', tr) \<Rightarrow>
          (case run_calls chunk reclose pr' cs of (pr'', tr') \<Rightarrow> (pr'', tr @ tr')))"

text \<open>
  A sequence of events leads from one reader to another without a leak: it never has more
  than one stream open, and the streams left open are the ones the reader holds.
\<close>

definition tracked :: "PieceReader \<Rightarrow> event list \<Rightarrow> PieceReader \<Rightarrow> bool" where
  "tracked pr tr pr' \<longleftrightarrow> peak (holds pr) tr \<le> 1 \<and> live (holds pr) tr = holds pr'"

section \<open>Item runs, after the specification\<close>

text \<open>
  The specification's folding rule, stated on the candidate list alone: a run is a
  maximal stretch of consecutive candidates that are not inline and reference the same
  item identity; an inline candidate, or a candidate of another item, ends the run.
  \<open>same_item\<close> is the relation between neighbours of one run, \<open>item_runs\<close> cuts the
  list into its runs (an inline candidate is a run of its own), and \<open>run_block\<close> is the
  block a run stands for.
\<close>

definition same_item :: "('c, 's) CarBlock \<Rightarrow> ('c, 's) CarBlock \<Rightarrow> bool" where
  "same_item a b \<longleftrightarrow>
     cb_RawBlock a = None \<and> cb_RawBlock b = None \<and>
     (case (cb_Item a, cb_Item b) of (Some x, Some y) \<Rightarrow> ID x = ID y | _ \<Rightarrow> False)"

fun item_runs :: "('c, 's) CarBlock list \<Rightarrow> ('c, 's) CarBlock list list" where
  "item_runs [] = []"
| "item_runs [b] = [[b]]"
| "item_runs (a # b # bs) =
     (if same_item a b
      then (case item_runs (b # bs) of [] \<Rightarrow> [[a]] | r # rs \<Rightarrow> (a # r) # rs)
      else [a] # item_runs (b # bs))"

definition run_block ::
  "('c \<Rightarrow> byte list option) \<Rightarrow> ('s \<Rightarrow> handler option) \<Rightarrow> ('c, 's) CarBlock list \<Rightarrow> PieceBlock" where
  "run_block parse resolver run =
     (case cb_RawBlock (hd run) of
        Some data \<Rightarrow> PRaw (mk_raw (hd run) (the (parse (CID (hd run)))) data)
      | None \<Rightarrow>
          PItem \<lparr>item_PieceOffset = CarOffset (hd run),
                 SourceHandler = the (resolver (the (Source (hd run)))),
                 item_Item = cb_Item (hd run),
                 Meta = map (\<lambda>b. mk_meta b (the (parse (CID b)))) run\<rparr>)"

text \<open>
  The invariant of the second loop of \<open>NewPieceReader\<close>: the pending item block, when
  there is one, is the block of the run of candidates read so far.
\<close>

definition pending_run ::
  "('c \<Rightarrow> byte list option) \<Rightarrow> ('s \<Rightarrow> handler option) \<Rightarrow> 's combine_state \<Rightarrow>
   ('c, 's) CarBlock list \<Rightarrow> bool" where
  "pending_run parse resolver st run \<longleftrightarrow>
     (case lastItemBlock st of
        None \<Rightarrow> run = []
      | Some l \<Rightarrow>
          run \<noteq> [] \<and> successively same_item run \<and>
          (\<forall>b \<in> set run. cb_RawBlock b = None
             \<and> map_option ID (cb_Item b) = map_option ID (item_Item l)) \<and>
          PItem l = run_block parse resolver run)"

text \<open>The item blocks of a block list, in order, and the shape of a block list.\<close>

fun item_blocks :: "PieceBlock list \<Rightarrow> ItemBlock list" where
  "item_blocks [] = []"
| "item_blocks (PRaw r # bs) = item_blocks bs"
| "item_blocks (PItem i # bs) = i # item_blocks bs"

definition entries :: "PieceBlock \<Rightarrow> nat option" where
  "entries b = (case b of PRaw r \<Rightarrow> None | PItem i \<Rightarrow> Some (length (Meta i)))"

section \<open>Sample plans and readers\<close>

text \<open>
  The piece of the specification's example: a header of four bytes \<open>0a\<close>, one inline
  block at offset 4 with prefix \<open>05\<close>, identifier \<open>aa bb\<close> and payload \<open>cc dd\<close>, piece
  size 9. Identifiers are kept as their bytes, so \<open>parse\<close> is \<open>Some\<close>.
\<close>

definition example_car :: Car where
  "example_car = \<lparr>car_Header = [0x0a, 0x0a, 0x0a, 0x0a], FileSize = 9\<rparr>"

definition example_block :: "(byte list, nat) CarBlock" where
  "example_block =
     \<lparr>CarOffset = 4, CarBlockLength = 5, cb_Varint = 5, CID = [0xAA, 0xBB],
      cb_RawBlock = Some [0xCC, 0xDD], cb_Item = None, Source = None,
      cb_ItemOffset = 0, BlockLength = 2\<rparr>"

definition example_reader :: PieceReader where
  "example_reader =
     \<lparr>Blocks = [PRaw \<lparr>raw_PieceOffset = 4, raw_Varint = [0x05], raw_Cid = [0xAA, 0xBB],
                      BlockData = [0xCC, 0xDD]\<rparr>],
      reader = None, pos = 0, blockID = 0, innerBlockID = 0, blockOffset = 0,
      Header = [0x0a, 0x0a, 0x0a, 0x0a]\<rparr>"

text \<open>Two candidates under the same header with a gap of one byte between them.\<close>

definition gap_plan :: "(byte list, nat) CarBlock list" where
  "gap_plan = [example_block\<lparr>CarBlockLength := 3\<rparr>,
               example_block\<lparr>CarOffset := 8, CarBlockLength := 1\<rparr>]"

text \<open>
  A source of eight bytes \<open>01 .. 08\<close>: its handler serves any range of them, and the
  resolver gives this handler for every source. Two items on it, and a candidate of one
  payload byte at item offset \<open>ioff\<close> (prefix \<open>03\<close>, identifier \<open>aa bb\<close>, four bytes in
  the piece).
\<close>

definition sample_handler :: handler where
  "sample_handler path off len =
     Some (take (unat len) (drop (unat off) [0x01, 0x02, 0x03, 0x04, 0x05, 0x06, 0x07, 0x08]))"

definition sample_resolver :: "nat \<Rightarrow> handler option" where
  "sample_resolver src = Some sample_handler"

definition item_a :: Item where
  "item_a = \<lparr>ID = 1, Path = ''a'', Size = 8\<rparr>"

definition item_b :: Item where
  "item_b = \<lparr>ID = 2, Path = ''b'', Size = 8\<rparr>"

definition item_candidate :: "u64 \<Rightarrow> Item \<Rightarrow> u64 \<Rightarrow> (byte list, nat) CarBlock" where
  "item_candidate off it ioff =
     \<lparr>CarOffset = off, CarBlockLength = 4, cb_Varint = 3, CID = [0xAA, 0xBB],
      cb_RawBlock = None, cb_Item = Some it, Source = Some 0,
      cb_ItemOffset = ioff, BlockLength = 1\<rparr>"

text \<open>
  The scenario of the specification: five candidates of one item, an inline candidate,
  two candidates of another item, under the four-byte header.
\<close>

definition fold_plan :: "(byte list, nat) CarBlock list" where
  "fold_plan =
     [item_candidate 4 item_a 0, item_candidate 8 item_a 1, item_candidate 12 item_a 2,
      item_candidate 16 item_a 3, item_candidate 20 item_a 4,
      example_block\<lparr>CarOffset := 24\<rparr>,
      item_candidate 29 item_b 0, item_candidate 33 item_b 1]"

definition fold_car :: Car where
  "fold_car = \<lparr>car_Header = [0x0a, 0x0a, 0x0a, 0x0a], FileSize = 37\<rparr>"

text \<open>
  A plan of one candidate that is not inline and carries neither item nor source, and
  the same candidate with a source but no item.
\<close>

definition dangling_block :: "(byte list, nat) CarBlock" where
  "dangling_block = example_block\<lparr>cb_RawBlock := None\<rparr>"

definition itemless_block :: "(byte list, nat) CarBlock" where
  "itemless_block = example_block\<lparr>cb_RawBlock := None, Source := Some 0\<rparr>"

text \<open>A piece of the four-byte header and one candidate of item \<open>a\<close>.\<close>

definition item_car :: Car where
  "item_car = \<lparr>car_Header = [0x0a, 0x0a, 0x0a, 0x0a], FileSize = 8\<rparr>"

definition item_reader :: PieceReader where
  "item_reader =
     \<lparr>Blocks = [PItem \<lparr>item_PieceOffset = 4, SourceHandler = sample_handler,
                       item_Item = Some item_a,
                       Meta = [\<lparr>PieceOffset = 4, Varint = [0x03], Cid = [0xAA, 0xBB],
                                ItemOffset = 0, ItemLength = 1\<rparr>]\<rparr>],
      reader = None, pos = 0, blockID = 0, innerBlockID = 0, blockOffset = 0,
      Header = [0x0a, 0x0a, 0x0a, 0x0a]\<rparr>"

text \<open>
  Invariant of the second loop for the resolver log: the calls logged so far returned, in
  order, the handlers of the item blocks built so far (the pending one last).
\<close>

definition handlers_logged :: "('s \<Rightarrow> handler option) \<Rightarrow> 's combine_state \<Rightarrow> bool" where
  "handlers_logged resolver st \<longleftrightarrow>
     map resolver (resolved st)
       = map (\<lambda>i. Some (SourceHandler i))
           (item_blocks (blocks st) @ (case lastItemBlock st of None \<Rightarrow> [] | Some l \<Rightarrow> [l]))"

section \<open>Properties\<close>

subsection \<open>Evaluation of the samples\<close>

lemma uvarint_small: "n < 128 \<Longrightarrow> uvarint n = [of_nat n]"
  by (simp add: uvarint.simps)

lemma example_built:
  "NewPieceReader Some example_car [example_block] (\<lambda>s. None) = (Inr example_reader, [])"
  by (simp add: NewPieceReader_def example_car_def example_block_def example_reader_def
      flush_last_def note_resolved_def add_block_def mk_raw_def ToUvarint_def uvarint_small)

lemma example_full_read:
  "fst (Read chunk example_reader 9) =
     ([0x0a, 0x0a, 0x0a, 0x0a, 0x05, 0xAA, 0xBB, 0xCC, 0xDD], None)"
  by (simp add: Read_def example_reader_def and_then_def copy_step_def Read_raw_def
      raw_CidOffset_def raw_BlockOffset_def raw_EndOffset_def)

subsection \<open>Rejected plans\<close>

lemma sanitize_gap:
  "gap_at bs i \<Longrightarrow> sanitize bs = Some NonContiguous \<or> sanitize bs = Some UnresolvableReference"
proof (induction bs arbitrary: i rule: sanitize.induct)
  case (1 b b' bs)
  show ?case
  proof (cases i)
    case 0
    with "1.prems" show ?thesis by (simp add: gap_at_def)
  next
    case (Suc k)
    with "1.prems" have "gap_at (b' # bs) k" by (simp add: gap_at_def)
    with "1.IH" show ?thesis by auto
  qed
qed (simp_all add: gap_at_def)

lemma sanitize_first_gap:
  "gap_at bs i \<Longrightarrow> \<forall>j<i. \<not> unresolvable (bs ! j) \<Longrightarrow> sanitize bs = Some NonContiguous"
proof (induction bs arbitrary: i rule: sanitize.induct)
  case (1 b b' bs)
  show ?case
  proof (cases i)
    case 0
    with "1.prems" show ?thesis by (simp add: gap_at_def)
  next
    case (Suc k)
    with "1.prems" have g: "gap_at (b' # bs) k" by (simp add: gap_at_def)
    from Suc "1.prems"(2) have u: "\<forall>j<k. \<not> unresolvable ((b' # bs) ! j)" by auto
    from Suc "1.prems"(2) have "\<not> unresolvable b" by auto
    with "1.IH" [OF _ _ g u] show ?thesis by (auto simp: unresolvable_def)
  qed
qed (simp_all add: gap_at_def)

text \<open>
  C3. \<open>NewPieceReader\<close> returns an error, and so no reader, whenever the candidate list
  is empty, the first candidate does not start at the header length, the last candidate
  does not end at the declared piece size, or some candidate does not end where the next
  one starts. The checks run in this order and the first one that fails names the error:
  \<open>EmptyPlan\<close>, then \<open>HeaderMisalignment\<close>, then \<open>FooterMisalignment\<close>, then, for the
  first gap, \<open>NonContiguous\<close> (a candidate before the first gap that is neither raw nor
  preloaded is reported first, as \<open>UnresolvableReference\<close>).
\<close>

theorem NewPieceReader_rejects:
  fixes carBlocks :: "('c, 's) CarBlock list"
  assumes "carBlocks = []
     \<or> CarOffset (hd carBlocks) \<noteq> of_nat (length (car_Header car))
     \<or> CarOffset (last carBlocks) + CarBlockLength (last carBlocks) \<noteq> FileSize car
     \<or> (\<exists>i. gap_at carBlocks i)"
  shows "(\<exists>e \<in> {EmptyPlan, HeaderMisalignment, FooterMisalignment, NonContiguous,
                UnresolvableReference}.
            fst (NewPieceReader parse car carBlocks resolver) = Inl e)
    \<and> (carBlocks = [] \<longrightarrow> fst (NewPieceReader parse car carBlocks resolver) = Inl EmptyPlan)
    \<and> (carBlocks \<noteq> [] \<and> CarOffset (hd carBlocks) \<noteq> of_nat (length (car_Header car))
         \<longrightarrow> fst (NewPieceReader parse car carBlocks resolver) = Inl HeaderMisalignment)
    \<and> (carBlocks \<noteq> [] \<and> CarOffset (hd carBlocks) = of_nat (length (car_Header car))
         \<and> CarOffset (last carBlocks) + CarBlockLength (last carBlocks) \<noteq> FileSize car
         \<longrightarrow> fst (NewPieceReader parse car carBlocks resolver) = Inl FooterMisalignment)
    \<and> (carBlocks \<noteq> [] \<and> CarOffset (hd carBlocks) = of_nat (length (car_Header car))
         \<and> CarOffset (last carBlocks) + CarBlockLength (last carBlocks) = FileSize car
         \<and> (\<exists>i. gap_at carBlocks i \<and> (\<forall>j<i. \<not> unresolvable (carBlocks ! j)))
         \<longrightarrow> fst (NewPieceReader parse car carBlocks resolver) = Inl NonContiguous)"
proof -
  let ?R = "fst (NewPieceReader parse car carBlocks resolver)"
  let ?hd = "CarOffset (hd carBlocks) = of_nat (length (car_Header car))"
  let ?ft = "CarOffset (last carBlocks) + CarBlockLength (last carBlocks) = FileSize car"
  have nil: "?R = Inl EmptyPlan" if "carBlocks = []"
    using that by (simp add: NewPieceReader_def)
  have hd: "?R = Inl HeaderMisalignment" if "carBlocks \<noteq> []" "\<not> ?hd"
    using that by (simp add: NewPieceReader_def)
  have ft: "?R = Inl FooterMisalignment" if "carBlocks \<noteq> []" "?hd" "\<not> ?ft"
    using that by (simp add: NewPieceReader_def)
  have san: "?R = Inl e" if "carBlocks \<noteq> []" "?hd" "?ft" "sanitize carBlocks = Some e" for e
    using that by (simp add: NewPieceReader_def)
  have gap: "?R = Inl NonContiguous \<or> ?R = Inl UnresolvableReference"
    if "carBlocks \<noteq> []" "?hd" "?ft" "gap_at carBlocks i" for i
    using sanitize_gap [OF that(4)] san [OF that(1-3)] by auto
  have first: "?R = Inl NonContiguous"
    if "carBlocks \<noteq> []" "?hd" "?ft" "gap_at carBlocks i"
       "\<forall>j<i. \<not> unresolvable (carBlocks ! j)" for i
    using sanitize_first_gap [OF that(4,5)] san [OF that(1-3)] by auto
  have any: "\<exists>e \<in> {EmptyPlan, HeaderMisalignment, FooterMisalignment, NonContiguous,
                UnresolvableReference}. ?R = Inl e"
  proof (cases "carBlocks = []")
    case True
    with nil show ?thesis by simp
  next
    case ne: False
    show ?thesis
    proof (cases ?hd)
      case False
      with hd ne show ?thesis by simp
    next
      case h: True
      show ?thesis
      proof (cases ?ft)
        case False
        with ft ne h show ?thesis by simp
      next
        case True
        with assms ne h obtain i where "gap_at carBlocks i" by auto
        from gap [OF ne h True this] show ?thesis by auto
      qed
    qed
  qed
  from any nil hd ft first show ?thesis by blast
qed

theorem NewPieceReader_rejects_witness:
  "gap_at gap_plan 0
   \<and> fst (NewPieceReader Some example_car gap_plan (\<lambda>s. None)) = Inl NonContiguous
   \<and> fst (NewPieceReader Some example_car ([] :: (byte list, nat) CarBlock list) (\<lambda>s. None))
       = Inl EmptyPlan"
proof -
  have g: "gap_at gap_plan 0"
    by (simp add: gap_at_def gap_plan_def example_block_def)
  have h: "gap_plan \<noteq> [] \<and> CarOffset (hd gap_plan) = of_nat (length (car_Header example_car))
      \<and> CarOffset (last gap_plan) + CarBlockLength (last gap_plan) = FileSize example_car"
    by (simp add: gap_plan_def example_block_def example_car_def)
  have "fst (NewPieceReader Some example_car gap_plan (\<lambda>s. None)) = Inl NonContiguous"
    using NewPieceReader_rejects [of gap_plan example_car Some "\<lambda>s. None"] g h by auto
  moreover have "fst (NewPieceReader Some example_car ([] :: (byte list, nat) CarBlock list)
      (\<lambda>s. None)) = Inl EmptyPlan"
    using NewPieceReader_rejects [of "[] :: (byte list, nat) CarBlock list" example_car Some
        "\<lambda>s. None"] by simp
  ultimately show ?thesis using g by simp
qed

subsection \<open>Seeking\<close>

text \<open>
  C2. On the specification's example piece, \<open>MakeCopy(6)\<close> should give a reader that
  yields \<open>bb cc dd\<close>. The binary search returns the insertion point of the offset among
  the block offsets, which for an offset inside the only block is the length of the block
  list, and indexing the block list there panics. (The full read of the same piece does
  yield the nine bytes.)
\<close>

theorem MakeCopy_example_panics:
  "fst (NewPieceReader Some example_car [example_block] (\<lambda>s. None)) = Inr example_reader
   \<and> fst (Read (\<lambda>req avail. req) example_reader 9)
       = ([0x0a, 0x0a, 0x0a, 0x0a, 0x05, 0xAA, 0xBB, 0xCC, 0xDD], None)
   \<and> MakeCopy example_reader 6 = Inl (Panic IndexOutOfRange)"
  by (simp add: example_built example_full_read)
    (simp add: MakeCopy_def example_reader_def BinarySearchFunc_def bsearch_loop.simps)

subsection \<open>Folding candidates into item runs\<close>

lemma item_runs_Nil_iff [simp]: "item_runs bs = [] \<longleftrightarrow> bs = []"
  by (induction bs rule: item_runs.induct) (auto split: list.splits)

lemma item_runs_single_run:
  "run \<noteq> [] \<Longrightarrow> successively same_item run \<Longrightarrow> item_runs run = [run]"
  by (induction run rule: item_runs.induct) (auto split: list.splits)

lemma item_runs_split:
  "run \<noteq> [] \<Longrightarrow> successively same_item run \<Longrightarrow> \<not> same_item (last run) c \<Longrightarrow>
   item_runs (run @ c # cs) = run # item_runs (c # cs)"
proof (induction run rule: item_runs.induct)
  case (3 a b bs)
  then have "item_runs ((b # bs) @ c # cs) = (b # bs) # item_runs (c # cs)" by simp
  with 3 show ?case by simp
qed simp_all

lemma item_runs_raw:
  "cb_RawBlock c \<noteq> None \<Longrightarrow> item_runs (c # cs) = [c] # item_runs cs"
  by (cases cs) (auto simp: same_item_def)

lemma concat_item_runs: "concat (item_runs bs) = bs"
  by (induction bs rule: item_runs.induct) (auto split: list.splits)

lemma item_runs_nonempty: "r \<in> set (item_runs bs) \<Longrightarrow> r \<noteq> []"
  by (induction bs arbitrary: r rule: item_runs.induct) (auto split: list.splits if_splits)

lemma item_runs_hd: "bs \<noteq> [] \<Longrightarrow> hd (hd (item_runs bs)) = hd bs"
  by (induction bs rule: item_runs.induct) (auto split: list.splits)

lemma item_runs_uniform: "r \<in> set (item_runs bs) \<Longrightarrow> successively same_item r"
proof (induction bs arbitrary: r rule: item_runs.induct)
  case (3 a b bs)
  show ?case
  proof (cases "same_item a b")
    case True
    obtain q qs where q: "item_runs (b # bs) = q # qs"
      by (cases "item_runs (b # bs)") auto
    have hq: "hd q = b" using item_runs_hd [of "b # bs"] q by simp
    have nq: "q \<noteq> []" using item_runs_nonempty [of q "b # bs"] q by simp
    from 3 True q have "r = a # q \<or> r \<in> set qs" by auto
    then show ?thesis
    proof
      assume "r = a # q"
      moreover have "successively same_item q" using "3.IH"(1) [OF True, of q] q by simp
      ultimately show ?thesis using True hq nq by (cases q) auto
    next
      assume "r \<in> set qs"
      then show ?thesis using "3.IH"(1) [OF True, of r] q by simp
    qed
  next
    case False
    with 3 show ?thesis by auto
  qed
qed simp_all

lemma item_runs_maximal:
  "successively (\<lambda>r r'. \<not> same_item (last r) (hd r')) (item_runs bs)"
proof (induction bs rule: item_runs.induct)
  case (3 a b bs)
  obtain q qs where q: "item_runs (b # bs) = q # qs"
    by (cases "item_runs (b # bs)") auto
  have hq: "hd q = b" using item_runs_hd [of "b # bs"] q by simp
  have nq: "q \<noteq> []" using item_runs_nonempty [of q "b # bs"] q by simp
  show ?case
  proof (cases "same_item a b")
    case True
    with 3 q nq show ?thesis by (cases qs) auto
  next
    case False
    with 3 q hq show ?thesis by auto
  qed
qed simp_all

lemma run_block_raw:
  "cb_RawBlock c = Some data \<Longrightarrow> parse (CID c) = Some cid \<Longrightarrow>
   run_block parse resolver [c] = PRaw (mk_raw c cid data)"
  by (simp add: run_block_def)

lemma run_block_single:
  "cb_RawBlock c = None \<Longrightarrow> Source c = Some src \<Longrightarrow> resolver src = Some h \<Longrightarrow>
   parse (CID c) = Some cid \<Longrightarrow>
   run_block parse resolver [c] =
     PItem \<lparr>item_PieceOffset = CarOffset c, SourceHandler = h, item_Item = cb_Item c,
            Meta = [mk_meta c cid]\<rparr>"
  by (simp add: run_block_def)

lemma run_block_snoc:
  "run \<noteq> [] \<Longrightarrow> cb_RawBlock (hd run) = None \<Longrightarrow> PItem l = run_block parse resolver run \<Longrightarrow>
   parse (CID c) = Some cid \<Longrightarrow>
   PItem (l\<lparr>Meta := Meta l @ [mk_meta c cid]\<rparr>) = run_block parse resolver (run @ [c])"
  by (auto simp: run_block_def)

lemma combine_Cons_Inr:
  "fst (combine parse resolver (c # cs) st) = Inr bs \<Longrightarrow>
   \<exists>st1 st3. flush_last c st = Inr st1
     \<and> add_block parse resolver c (note_resolved c st1) = Inr st3
     \<and> fst (combine parse resolver cs st3) = Inr bs"
  by (auto simp: Let_def split: sum.splits)

lemma add_block_raw:
  "cb_RawBlock c = Some data \<Longrightarrow> add_block parse resolver c (note_resolved c st) = Inr st3 \<Longrightarrow>
   \<exists>cid. parse (CID c) = Some cid \<and> st3 = st\<lparr>blocks := blocks st @ [PRaw (mk_raw c cid data)]\<rparr>"
  by (auto simp: add_block_def note_resolved_def split: option.splits)

lemma add_block_new:
  "cb_RawBlock c = None \<Longrightarrow> lastItemBlock st = None \<Longrightarrow>
   add_block parse resolver c (note_resolved c st) = Inr st3 \<Longrightarrow>
   \<exists>src h cid. Source c = Some src \<and> resolver src = Some h \<and> parse (CID c) = Some cid
     \<and> st3 = st\<lparr>resolved := resolved st @ [src],
               lastItemBlock := Some \<lparr>item_PieceOffset = CarOffset c, SourceHandler = h,
                   item_Item = cb_Item c, Meta = [mk_meta c cid]\<rparr>\<rparr>"
  by (auto simp: add_block_def note_resolved_def split: option.splits)

lemma add_block_append:
  "cb_RawBlock c = None \<Longrightarrow> lastItemBlock st = Some l \<Longrightarrow>
   add_block parse resolver c (note_resolved c st) = Inr st3 \<Longrightarrow>
   \<exists>cid. parse (CID c) = Some cid
     \<and> st3 = st\<lparr>lastItemBlock := Some (l\<lparr>Meta := Meta l @ [mk_meta c cid]\<rparr>)\<rparr>"
  by (auto simp: add_block_def note_resolved_def split: option.splits)

lemma flush_last_cases:
  "flush_last c st = Inr st1 \<Longrightarrow> lastItemBlock st = Some l \<Longrightarrow>
   (cb_RawBlock c \<noteq> None \<or> (\<exists>a b. item_Item l = Some a \<and> cb_Item c = Some b \<and> ID a \<noteq> ID b))
     \<and> st1 = st\<lparr>blocks := blocks st @ [PItem l], lastItemBlock := None\<rparr>
   \<or> cb_RawBlock c = None \<and> (\<exists>a b. item_Item l = Some a \<and> cb_Item c = Some b \<and> ID a = ID b)
     \<and> st1 = st"
  by (auto simp: flush_last_def split: option.splits if_splits)

lemma flush_last_None: "lastItemBlock st = None \<Longrightarrow> flush_last c st = Inr st"
  by (simp add: flush_last_def)

lemma combine_runs:
  "fst (combine parse resolver cs st) = Inr bs \<Longrightarrow> pending_run parse resolver st run \<Longrightarrow>
   bs = blocks st @ map (run_block parse resolver) (item_runs (run @ cs))"
proof (induction cs arbitrary: st run)
  case Nil
  then show ?case
    by (auto simp: pending_run_def item_runs_single_run split: option.splits)
next
  case (Cons c cs)
  from combine_Cons_Inr [OF Cons.prems(1)] obtain st1 st3 where
    fl: "flush_last c st = Inr st1"
    and ab: "add_block parse resolver c (note_resolved c st1) = Inr st3"
    and rest: "fst (combine parse resolver cs st3) = Inr bs"
    by blast
  have new_run: ?case
    if l1: "lastItemBlock st1 = None" and raw: "cb_RawBlock c = None"
      and pre: "blocks st1 = blocks st @ map (run_block parse resolver) pre"
      and runs: "item_runs (run @ c # cs) = pre @ item_runs (c # cs)" for pre
  proof -
    from add_block_new [OF raw l1 ab] obtain src h cid where
      src: "Source c = Some src" and h: "resolver src = Some h"
      and cid: "parse (CID c) = Some cid"
      and st3: "st3 = st1\<lparr>resolved := resolved st1 @ [src],
               lastItemBlock := Some \<lparr>item_PieceOffset = CarOffset c, SourceHandler = h,
                   item_Item = cb_Item c, Meta = [mk_meta c cid]\<rparr>\<rparr>"
      by blast
    have "pending_run parse resolver st3 [c]"
      using raw src h cid st3 by (simp add: pending_run_def run_block_single)
    from Cons.IH [OF rest this] show ?thesis using st3 pre runs by simp
  qed
  have raw_block: ?case
    if l1: "lastItemBlock st1 = None" and raw: "cb_RawBlock c = Some data"
      and pre: "blocks st1 = blocks st @ map (run_block parse resolver) pre"
      and runs: "item_runs (run @ c # cs) = pre @ item_runs (c # cs)" for pre data
  proof -
    from add_block_raw [OF raw ab] obtain cid where cid: "parse (CID c) = Some cid"
      and st3: "st3 = st1\<lparr>blocks := blocks st1 @ [PRaw (mk_raw c cid data)]\<rparr>"
      by blast
    have "pending_run parse resolver st3 []" using st3 l1 by (simp add: pending_run_def)
    from Cons.IH [OF rest this] show ?thesis
      using st3 pre runs raw cid by (simp add: item_runs_raw run_block_raw)
  qed
  show ?case
  proof (cases "lastItemBlock st")
    case None
    with Cons.prems(2) have run: "run = []" by (simp add: pending_run_def)
    from fl None have st1: "st1 = st" by (simp add: flush_last_None)
    show ?thesis
    proof (cases "cb_RawBlock c")
      case (Some data)
      show ?thesis by (rule raw_block [of data "[]"]) (use st1 None Some run in simp_all)
    next
      case raw: None
      show ?thesis by (rule new_run [of "[]"]) (use st1 None raw run in simp_all)
    qed
  next
    case (Some l)
    with Cons.prems(2) have ne: "run \<noteq> []" and succ: "successively same_item run"
      and all: "\<forall>b \<in> set run. cb_RawBlock b = None
             \<and> map_option ID (cb_Item b) = map_option ID (item_Item l)"
      and blk: "PItem l = run_block parse resolver run"
      by (simp_all add: pending_run_def)
    from ne all have lastrun: "cb_RawBlock (last run) = None"
      "map_option ID (cb_Item (last run)) = map_option ID (item_Item l)"
      "cb_RawBlock (hd run) = None"
      by auto
    from flush_last_cases [OF fl Some] consider
      (flush) "cb_RawBlock c \<noteq> None
          \<or> (\<exists>a b. item_Item l = Some a \<and> cb_Item c = Some b \<and> ID a \<noteq> ID b)"
        "st1 = st\<lparr>blocks := blocks st @ [PItem l], lastItemBlock := None\<rparr>"
    | (keep) "cb_RawBlock c = None"
        "\<exists>a b. item_Item l = Some a \<and> cb_Item c = Some b \<and> ID a = ID b" "st1 = st"
      by argo
    then show ?thesis
    proof cases
      case flush
      note diff = flush(1) and st1 = flush(2)
      have "\<not> same_item (last run) c"
        using diff lastrun by (auto simp: same_item_def split: option.splits)
      then have runs: "item_runs (run @ c # cs) = [run] @ item_runs (c # cs)"
        using item_runs_split [OF ne succ] by simp
      have pre: "blocks st1 = blocks st @ map (run_block parse resolver) [run]"
        using st1 blk by simp
      have l1: "lastItemBlock st1 = None" using st1 by simp
      show ?thesis
      proof (cases "cb_RawBlock c")
        case (Some data)
        show ?thesis by (rule raw_block [OF l1 Some pre runs])
      next
        case raw: None
        show ?thesis by (rule new_run [OF l1 raw pre runs])
      qed
    next
      case keep
      note raw = keep(1) and same = keep(2) and st1 = keep(3)
      from add_block_append [OF raw _ ab, of l] Some st1 obtain cid where
        cid: "parse (CID c) = Some cid"
        and st3: "st3 = st\<lparr>lastItemBlock := Some (l\<lparr>Meta := Meta l @ [mk_meta c cid]\<rparr>)\<rparr>"
        by auto
      have si: "same_item (last run) c"
        using lastrun raw same by (auto simp: same_item_def split: option.splits)
      have "pending_run parse resolver st3 (run @ [c])"
        using ne succ all si raw same st3 run_block_snoc [OF ne lastrun(3) blk cid]
        by (auto simp: pending_run_def successively_append_iff)
      from Cons.IH [OF rest this] show ?thesis using st3 by simp
    qed
  qed
qed

lemma NewPieceReader_Inr:
  "fst (NewPieceReader parse car cs resolver) = Inr pr \<Longrightarrow>
   \<exists>bs. fst (combine parse resolver cs \<lparr>blocks = [], lastItemBlock = None, resolved = []\<rparr>) = Inr bs
      \<and> snd (NewPieceReader parse car cs resolver)
          = snd (combine parse resolver cs \<lparr>blocks = [], lastItemBlock = None, resolved = []\<rparr>)
      \<and> pr = \<lparr>Blocks = bs, reader = None, pos = 0, blockID = 0, innerBlockID = 0,
               blockOffset = 0, Header = car_Header car\<rparr>"
  by (auto simp: NewPieceReader_def split: if_splits option.splits sum.splits prod.splits)

text \<open>
  C5. When \<open>NewPieceReader\<close> accepts a plan, its block list is the list of the plan's
  runs, one block a run: the runs partition the candidate list in order, every run is a
  stretch of neighbours that are not inline and carry the same item identity (or a single
  candidate), and no run can be extended, since the last candidate of a run and the first
  of the next are never of the same item. An item block holds the metadata entries of its
  run in candidate order.
\<close>

theorem NewPieceReader_folds_runs:
  assumes "fst (NewPieceReader parse car carBlocks resolver) = Inr pr"
  shows "Blocks pr = map (run_block parse resolver) (item_runs carBlocks)
    \<and> concat (item_runs carBlocks) = carBlocks
    \<and> (\<forall>run \<in> set (item_runs carBlocks). run \<noteq> [] \<and> successively same_item run)
    \<and> successively (\<lambda>run run'. \<not> same_item (last run) (hd run')) (item_runs carBlocks)"
proof -
  from NewPieceReader_Inr [OF assms] obtain bs where
    bs: "fst (combine parse resolver carBlocks
           \<lparr>blocks = [], lastItemBlock = None, resolved = []\<rparr>) = Inr bs"
    and pr: "Blocks pr = bs"
    by auto
  have "pending_run parse resolver \<lparr>blocks = [], lastItemBlock = None, resolved = []\<rparr> []"
    by (simp add: pending_run_def)
  from combine_runs [OF bs this] pr
  have "Blocks pr = map (run_block parse resolver) (item_runs carBlocks)" by simp
  then show ?thesis
    using concat_item_runs [of carBlocks] item_runs_nonempty [of _ carBlocks]
      item_runs_uniform [of _ carBlocks] item_runs_maximal [of carBlocks]
    by blast
qed

lemma fold_plan_built:
  "\<exists>pr. fst (NewPieceReader Some fold_car fold_plan sample_resolver) = Inr pr"
  by (simp add: NewPieceReader_def fold_car_def fold_plan_def item_candidate_def
      example_block_def item_a_def item_b_def sample_resolver_def
      flush_last_def note_resolved_def add_block_def)

lemma fold_plan_runs:
  "item_runs fold_plan = [take 5 fold_plan, [fold_plan ! 5], drop 6 fold_plan]"
  by (simp add: fold_plan_def item_candidate_def example_block_def item_a_def item_b_def
      same_item_def)

text \<open>
  The scenario of the specification: five candidates of one item, one inline candidate and
  two candidates of another item give an item block of five entries, a raw block and an
  item block of two entries.
\<close>

theorem NewPieceReader_folds_runs_witness:
  "\<exists>pr. fst (NewPieceReader Some fold_car fold_plan sample_resolver) = Inr pr
     \<and> Blocks pr = map (run_block Some sample_resolver)
                      [take 5 fold_plan, [fold_plan ! 5], drop 6 fold_plan]
     \<and> map entries (Blocks pr) = [Some 5, None, Some 2]"
proof -
  from fold_plan_built obtain pr where
    pr: "fst (NewPieceReader Some fold_car fold_plan sample_resolver) = Inr pr" ..
  from NewPieceReader_folds_runs [OF pr]
  have b: "Blocks pr = map (run_block Some sample_resolver)
                      [take 5 fold_plan, [fold_plan ! 5], drop 6 fold_plan]"
    by (simp add: fold_plan_runs)
  have "map entries (map (run_block Some sample_resolver)
                      [take 5 fold_plan, [fold_plan ! 5], drop 6 fold_plan]) = [Some 5, None, Some 2]"
    by (simp add: fold_plan_def item_candidate_def example_block_def entries_def run_block_def)
  with pr b show ?thesis by auto
qed

subsection \<open>When the handlers are resolved\<close>

lemma item_blocks_append: "item_blocks (xs @ ys) = item_blocks xs @ item_blocks ys"
  by (induction xs rule: item_blocks.induct) simp_all

lemma combine_Cons_pair:
  "combine parse resolver (c # cs) st = (Inr bs, log) \<Longrightarrow>
   \<exists>st1 st3. flush_last c st = Inr st1
     \<and> add_block parse resolver c (note_resolved c st1) = Inr st3
     \<and> combine parse resolver cs st3 = (Inr bs, log)"
  by (auto simp: Let_def split: sum.splits)

lemma flush_last_logged:
  "flush_last c st = Inr st1 \<Longrightarrow> handlers_logged resolver st \<Longrightarrow> handlers_logged resolver st1"
  by (cases "lastItemBlock st")
    (auto simp: flush_last_def handlers_logged_def item_blocks_append
      split: option.splits if_splits)

lemma add_block_logged:
  "add_block parse resolver c (note_resolved c st1) = Inr st3 \<Longrightarrow>
   handlers_logged resolver st1 \<Longrightarrow> handlers_logged resolver st3"
  by (cases "lastItemBlock st1")
    (auto simp: add_block_def note_resolved_def handlers_logged_def item_blocks_append
      split: option.splits if_splits)

lemma combine_handlers:
  "combine parse resolver cs st = (Inr bs, log) \<Longrightarrow> handlers_logged resolver st \<Longrightarrow>
   map resolver log = map (\<lambda>i. Some (SourceHandler i)) (item_blocks bs)"
proof (induction cs arbitrary: st)
  case Nil
  then show ?case
    by (auto simp: handlers_logged_def item_blocks_append split: option.splits)
next
  case (Cons c cs)
  from combine_Cons_pair [OF Cons.prems(1)] obtain st1 st3 where
    fl: "flush_last c st = Inr st1"
    and ab: "add_block parse resolver c (note_resolved c st1) = Inr st3"
    and rest: "combine parse resolver cs st3 = (Inr bs, log)"
    by blast
  from add_block_logged [OF ab flush_last_logged [OF fl Cons.prems(2)]]
  have "handlers_logged resolver st3" .
  from Cons.IH [OF rest this] show ?case .
qed

text \<open>
  C7, as the code has it. The handler of an item run is obtained exactly once for the
  run, by \<open>NewPieceReader\<close> while it builds the plan: the calls of
  \<open>resolver.GetHandler\<close> it made are, in order, the ones that returned the handlers of
  the item blocks of the reader. (\<open>Read\<close> has no access to the resolver.)
\<close>

theorem handlers_resolved_while_building:
  assumes "NewPieceReader parse car carBlocks resolver = (Inr pr, log)"
  shows "map resolver log = map (\<lambda>i. Some (SourceHandler i)) (item_blocks (Blocks pr))
    \<and> length log = length (item_blocks (Blocks pr))"
proof -
  from assms obtain bs where
    c: "combine parse resolver carBlocks \<lparr>blocks = [], lastItemBlock = None, resolved = []\<rparr>
          = (Inr bs, log)"
    and pr: "Blocks pr = bs"
    by (auto simp: NewPieceReader_def split: if_splits option.splits sum.splits prod.splits)
  have "handlers_logged resolver \<lparr>blocks = [], lastItemBlock = None, resolved = []\<rparr>"
    by (simp add: handlers_logged_def)
  from combine_handlers [OF c this] pr
  have m: "map resolver log = map (\<lambda>i. Some (SourceHandler i)) (item_blocks (Blocks pr))"
    by simp
  have "length (map resolver log)
      = length (map (\<lambda>i. Some (SourceHandler i)) (item_blocks (Blocks pr)))"
    by (simp only: m)
  then have "length log = length (item_blocks (Blocks pr))" by simp
  with m show ?thesis by simp
qed

lemma item_plan_built:
  "NewPieceReader Some item_car [item_candidate 4 item_a 0] sample_resolver
     = (Inr item_reader, [0])"
  by (simp add: NewPieceReader_def item_car_def item_candidate_def item_reader_def
      sample_resolver_def flush_last_def note_resolved_def add_block_def mk_meta_def
      ToUvarint_def uvarint_small)

theorem handlers_resolved_while_building_witness:
  "NewPieceReader Some item_car [item_candidate 4 item_a 0] sample_resolver
     = (Inr item_reader, [0])
   \<and> map sample_resolver [0] = map (\<lambda>i. Some (SourceHandler i)) (item_blocks (Blocks item_reader))
   \<and> length [0 :: nat] = length (item_blocks (Blocks item_reader))"
  using handlers_resolved_while_building [OF item_plan_built] item_plan_built by simp

text \<open>
  C7 as stated fails: for a plan of one item candidate the resolver is called inside
  \<open>NewPieceReader\<close>, before any \<open>Read\<close>, and a resolver that fails makes the build
  fail.
\<close>

theorem resolver_called_by_NewPieceReader:
  "snd (NewPieceReader Some item_car [item_candidate 4 item_a 0] sample_resolver) \<noteq> []
   \<and> fst (NewPieceReader Some item_car [item_candidate 4 item_a 0] (\<lambda>src. None))
       = Inl GetHandlerFailure"
  by (simp add: item_plan_built)
    (simp add: NewPieceReader_def item_car_def item_candidate_def
      flush_last_def note_resolved_def add_block_def)

subsection \<open>The last candidate\<close>

text \<open>
  C4. The loop that checks for candidates that are neither raw nor preloaded stops before
  the last index. A plan whose only candidate is not inline and has neither item nor
  source makes \<open>NewPieceReader\<close> panic on the nil source; with a source but no item the
  plan is accepted and the first \<open>Read\<close> that reaches the block panics on the nil item.
  The same candidate in a position before the last is rejected with
  \<open>UnresolvableReference\<close>.
\<close>

theorem last_candidate_not_checked:
  "fst (NewPieceReader Some example_car [dangling_block] sample_resolver)
     = Inl (Panic NilDereference)
   \<and> (\<exists>pr. fst (NewPieceReader Some example_car [itemless_block] sample_resolver) = Inr pr
         \<and> fst (Read (\<lambda>req avail. req) pr 9) = ([], Some (Panic NilDereference)))
   \<and> fst (NewPieceReader Some (example_car\<lparr>FileSize := 14\<rparr>)
            [dangling_block, example_block\<lparr>CarOffset := 9\<rparr>] sample_resolver)
       = Inl UnresolvableReference"
  by (simp add: NewPieceReader_def example_car_def dangling_block_def itemless_block_def
      example_block_def sample_resolver_def flush_last_def note_resolved_def add_block_def
      mk_meta_def ToUvarint_def uvarint_small Read_def and_then_def copy_step_def
      Read_item_def open_reader_def)

subsection \<open>Closing\<close>

text \<open>
  C9. \<open>Close\<close> does not clear the field \<open>reader\<close> (as \<open>Read\<close> does at the end of
  a run), so a second \<open>Close\<close> of a reader with an open stream calls the stream's
  \<open>Close\<close> again and returns whatever a closed stream returns then.
\<close>

theorem Close_twice_closes_twice:
  "snd (snd (Read (\<lambda>req avail. req) item_reader 5)) = [EvOpen ''a'' 0 8]
   \<and> (case Close (Some StreamFailure) (fst (snd (Read (\<lambda>req avail. req) item_reader 5))) of
        (e1, pr1, tr1) \<Rightarrow>
          e1 = None \<and> tr1 = [EvClose] \<and> reader pr1 \<noteq> None
          \<and> (case Close (Some StreamFailure) pr1 of
               (e2, pr2, tr2) \<Rightarrow> e2 = Some StreamFailure \<and> tr2 = [EvClose]))"
  by (simp add: Read_def item_reader_def and_then_def copy_step_def Read_item_def
      open_reader_def item_a_def sample_handler_def CidOffset_def Close_def)

subsection \<open>The steps of \<open>Read\<close>\<close>

lemma copy_step_cases:
  obtains (ret) e p out' where
      "copy_step plen bound src base (pr, out, tr) = Return e (pr\<lparr>pos := p\<rparr>, out', tr)"
    | (nxt) p out' where
      "copy_step plen bound src base (pr, out, tr) = Next (pr\<lparr>pos := p\<rparr>, out', tr)"
proof (cases "pos pr < bound")
  case False
  then have "copy_step plen bound src base (pr, out, tr) = Next (pr\<lparr>pos := pos pr\<rparr>, out, tr)"
    by (simp add: copy_step_def)
  then show ?thesis by (rule nxt)
next
  case True
  show ?thesis
  proof (cases "length src < unat (pos pr - base)")
    case True
    with \<open>pos pr < bound\<close>
    have "copy_step plen bound src base (pr, out, tr)
        = Return (Some (Panic SliceBounds)) (pr\<lparr>pos := pos pr\<rparr>, [], tr)"
      by (simp add: copy_step_def)
    then show ?thesis by (rule ret)
  next
    case False
    let ?copied = "take (plen - length out) (drop (unat (pos pr - base)) src)"
    show ?thesis
    proof (cases "length (out @ ?copied) = plen")
      case True
      with False \<open>pos pr < bound\<close>
      have "copy_step plen bound src base (pr, out, tr)
          = Return None (pr\<lparr>pos := pos pr + of_nat (length ?copied)\<rparr>, out @ ?copied, tr)"
        by (simp add: copy_step_def Let_def)
      then show ?thesis by (rule ret)
    next
      case neq: False
      with False \<open>pos pr < bound\<close>
      have "copy_step plen bound src base (pr, out, tr)
          = Next (pr\<lparr>pos := pos pr + of_nat (length ?copied)\<rparr>, out @ ?copied, tr)"
        by (simp add: copy_step_def Let_def)
      then show ?thesis by (rule nxt)
    qed
  qed
qed

lemma open_reader_cases:
  obtains (ret) e where
      "open_reader ib m (pr, out, tr)
         = Return e (pr\<lparr>reader := opened_reader ib m pr\<rparr>, [], tr @ open_events ib m pr)"
    | (nxt)
      "open_reader ib m (pr, out, tr)
         = Next (pr\<lparr>reader := opened_reader ib m pr\<rparr>, out, tr @ open_events ib m pr)"
proof (cases "reader pr")
  case (Some s)
  then have "open_reader ib m (pr, out, tr)
      = Next (pr\<lparr>reader := opened_reader ib m pr\<rparr>, out, tr @ open_events ib m pr)"
    by (simp add: open_reader_def opened_reader_def open_events_def)
  then show ?thesis by (rule nxt)
next
  case None
  then have same: "pr\<lparr>reader := None\<rparr> = pr" by (cases pr) simp
  show ?thesis
  proof (cases "item_Item ib")
    case no_item: None
    with None same have "open_reader ib m (pr, out, tr)
        = Return (Some (Panic NilDereference))
            (pr\<lparr>reader := opened_reader ib m pr\<rparr>, [], tr @ open_events ib m pr)"
      by (simp add: open_reader_def opened_reader_def open_events_def)
    then show ?thesis by (rule ret)
  next
    case (Some it)
    show ?thesis
    proof (cases "SourceHandler ib (Path it) (ItemOffset m + blockOffset pr)
                    (Size it - (ItemOffset m + blockOffset pr))")
      case failed: None
      with None Some same have "open_reader ib m (pr, out, tr)
          = Return (Some SourceReadFailure)
              (pr\<lparr>reader := opened_reader ib m pr\<rparr>, [], tr @ open_events ib m pr)"
        by (simp add: open_reader_def opened_reader_def open_events_def Let_def)
      then show ?thesis by (rule ret)
    next
      case (Some bs)
      with None \<open>item_Item ib = Some it\<close> have "open_reader ib m (pr, out, tr)
          = Next (pr\<lparr>reader := opened_reader ib m pr\<rparr>, out, tr @ open_events ib m pr)"
        by (simp add: open_reader_def opened_reader_def open_events_def Let_def)
      then show ?thesis by (rule nxt)
    qed
  qed
qed

lemma Read_item_cases:
  assumes "innerBlockID pr < length (Meta ib)"
  obtains (early) e p out' where
      "Read_item chunk plen ib (pr, out, tr)
         = Return e (pr\<lparr>reader := opened_reader ib (Meta ib ! innerBlockID pr) pr, pos := p\<rparr>, out',
                     tr @ open_events ib (Meta ib ! innerBlockID pr) pr)"
    | (payload) p out2 where
      "Read_item chunk plen ib (pr, out, tr)
         = read_payload chunk plen ib (Meta ib ! innerBlockID pr)
             (pr\<lparr>reader := opened_reader ib (Meta ib ! innerBlockID pr) pr, pos := p\<rparr>, out2,
              tr @ open_events ib (Meta ib ! innerBlockID pr) pr)"
proof -
  define m where "m = Meta ib ! innerBlockID pr"
  let ?r = "opened_reader ib m pr"
  let ?pr1 = "pr\<lparr>reader := ?r\<rparr>"
  let ?tr1 = "tr @ open_events ib m pr"
  have RI: "Read_item chunk plen ib (pr, out, tr) =
      and_then (open_reader ib m (pr, out, tr))
        (\<lambda>st. and_then (copy_step plen (CidOffset m) (Varint m) (PieceOffset m) st)
        (\<lambda>st. and_then (copy_step plen (BlockOffset m) (Cid m) (CidOffset m) st)
        (read_payload chunk plen ib m)))"
    using assms(1) by (simp add: Read_item_def m_def Let_def)
  show ?thesis
  proof (cases rule: open_reader_cases [of ib m pr out tr])
    case (ret e)
    then have "Read_item chunk plen ib (pr, out, tr)
        = Return e (pr\<lparr>reader := ?r, pos := pos pr\<rparr>, [], ?tr1)"
      by (simp add: RI and_then_def)
    then show ?thesis unfolding m_def by (rule early)
  next
    case nxt
    show ?thesis
    proof (cases rule: copy_step_cases [of plen "CidOffset m" "Varint m" "PieceOffset m" ?pr1 out ?tr1])
      case (ret e p out')
      with nxt have "Read_item chunk plen ib (pr, out, tr)
          = Return e (pr\<lparr>reader := ?r, pos := p\<rparr>, out', ?tr1)"
        by (simp add: RI and_then_def)
      then show ?thesis unfolding m_def by (rule early)
    next
      case n1: (nxt p1 out1)
      show ?thesis
      proof (cases rule: copy_step_cases [of plen "BlockOffset m" "Cid m" "CidOffset m"
            "?pr1\<lparr>pos := p1\<rparr>" out1 ?tr1])
        case (ret e p out')
        with nxt n1 have "Read_item chunk plen ib (pr, out, tr)
            = Return e (pr\<lparr>reader := ?r, pos := p\<rparr>, out', ?tr1)"
          by (simp add: RI and_then_def)
        then show ?thesis unfolding m_def by (rule early)
      next
        case n2: (nxt p2 out2)
        with nxt n1 have "Read_item chunk plen ib (pr, out, tr)
            = read_payload chunk plen ib m (pr\<lparr>reader := ?r, pos := p2\<rparr>, out2, ?tr1)"
          by (simp add: RI and_then_def)
        then show ?thesis unfolding m_def by (rule payload)
      qed
    qed
  qed
qed

lemma Read_raw_cases:
  obtains (raw) e p b i out' where
    "Read_raw plen rb (pr, out, tr)
       = Return e (pr\<lparr>pos := p, blockID := b, innerBlockID := i\<rparr>, out', tr)"
proof -
  have RR: "Read_raw plen rb (pr, out, tr) =
     and_then (copy_step plen (raw_CidOffset rb) (raw_Varint rb) (raw_PieceOffset rb) (pr, out, tr))
     (\<lambda>st. and_then (copy_step plen (raw_BlockOffset rb) (raw_Cid rb) (raw_CidOffset rb) st)
     (\<lambda>st. and_then (copy_step plen (raw_EndOffset rb) (BlockData rb) (raw_BlockOffset rb) st)
     (\<lambda>(pr, out, tr). Return None (pr\<lparr>blockID := blockID pr + 1, innerBlockID := 0\<rparr>, out, tr))))"
    by (simp add: Read_raw_def)
  have fin: thesis if "Read_raw plen rb (pr, out, tr) = Return e (pr\<lparr>pos := q\<rparr>, o', tr)" for e q o'
  proof -
    from that have "Read_raw plen rb (pr, out, tr)
        = Return e (pr\<lparr>pos := q, blockID := blockID pr, innerBlockID := innerBlockID pr\<rparr>, o', tr)"
      by simp
    then show ?thesis by (rule raw)
  qed
  show ?thesis
  proof (cases rule: copy_step_cases [of plen "raw_CidOffset rb" "raw_Varint rb" "raw_PieceOffset rb"
        pr out tr])
    case (ret e p out')
    then have "Read_raw plen rb (pr, out, tr) = Return e (pr\<lparr>pos := p\<rparr>, out', tr)"
      by (simp add: RR and_then_def)
    then show ?thesis by (rule fin)
  next
    case n1: (nxt p1 out1)
    show ?thesis
    proof (cases rule: copy_step_cases [of plen "raw_BlockOffset rb" "raw_Cid rb" "raw_CidOffset rb"
          "pr\<lparr>pos := p1\<rparr>" out1 tr])
      case (ret e p out')
      with n1 have "Read_raw plen rb (pr, out, tr) = Return e (pr\<lparr>pos := p\<rparr>, out', tr)"
        by (simp add: RR and_then_def)
      then show ?thesis by (rule fin)
    next
      case n2: (nxt p2 out2)
      show ?thesis
      proof (cases rule: copy_step_cases [of plen "raw_EndOffset rb" "BlockData rb"
            "raw_BlockOffset rb" "pr\<lparr>pos := p1, pos := p2\<rparr>" out2 tr])
        case (ret e p out')
        with n1 n2 have "Read_raw plen rb (pr, out, tr) = Return e (pr\<lparr>pos := p\<rparr>, out', tr)"
          by (simp add: RR and_then_def)
        then show ?thesis by (rule fin)
      next
        case (nxt p3 out3)
        with n1 n2 have "Read_raw plen rb (pr, out, tr)
            = Return None (pr\<lparr>pos := p3, blockID := blockID pr + 1, innerBlockID := 0\<rparr>, out3, tr)"
          by (simp add: RR and_then_def)
        then show ?thesis by (rule raw)
      qed
    qed
  qed
qed

lemma readTill_request:
  fixes d :: "64 word"
  assumes "int n \<le> min (int plen) (sint (word_of_int (int n + sint d) :: 64 word))"
  shows "nat (min (int plen) (sint (word_of_int (int n + sint d) :: 64 word)) - int n)
           = min (plen - n) (unat d)"
proof -
  let ?x = "int n + sint d"
  let ?w = "sint (word_of_int ?x :: 64 word)"
  have w: "?w = signed_take_bit 63 ?x" unfolding sint_sbintrunc' by simp
  have lo: "- (2 ^ 63) \<le> sint d" and hi: "sint d < 2 ^ 63"
    using sint_ge [of d] sint_lt [of d] by simp_all
  from assms have nw: "int n \<le> ?w" by simp
  have "?x < 2 ^ 63"
  proof (rule ccontr)
    assume "\<not> ?x < 2 ^ 63"
    then have "signed_take_bit 63 ?x \<le> ?x - 2 ^ Suc 63"
      by (intro signed_take_bit_int_less_eq) simp
    with w hi nw show False by simp
  qed
  moreover have "- (2 ^ 63) \<le> ?x" using lo by simp
  ultimately have eq: "?w = ?x" using w by (simp add: signed_take_bit_int_eq_self)
  with nw have nonneg: "0 \<le> sint d" by simp
  have su: "sint d = signed_take_bit 63 (uint d)" using sint_uint [of d] by simp
  have "uint d < 2 ^ 63"
  proof (rule ccontr)
    assume "\<not> uint d < 2 ^ 63"
    then have "signed_take_bit 63 (uint d) \<le> uint d - 2 ^ Suc 63"
      by (intro signed_take_bit_int_less_eq) simp
    moreover have "uint d < 2 ^ 64" using uint_bounded [of d] by simp
    ultimately show False using su nonneg by simp
  qed
  moreover have "- (2 ^ 63) \<le> uint d"
    using uint_ge_0 [of d] by (rule order_trans [rotated]) simp
  ultimately have "signed_take_bit 63 (uint d) = uint d"
    by (rule signed_take_bit_int_eq_self [rotated])
  then have "sint d = uint d" using su by simp
  then have ud: "sint d = int (unat d)" by simp
  have fin: "nat (min (int plen) (int n + int u) - int n) = min (plen - n) u" for u
    by arith
  from eq ud have "?w = int n + int (unat d)" by (simp only:)
  then show ?thesis by (simp only: fin)
qed

lemma stream_Read_facts:
  "stream_Read chunk s req = (bs, err, s') \<Longrightarrow>
   length bs \<le> req \<and> closed s' = closed s \<and> (closed s \<longrightarrow> err = Some StreamFailure)
   \<and> (err = None \<or> err = Some EOF \<or> err = Some StreamFailure)"
  by (auto simp: stream_Read_def Let_def split: if_splits)

lemma advance_cases:
  "advance ib m (pr1, tr1) = (pr2, tr2) \<Longrightarrow>
   pos pr2 = pos pr1 \<and> Blocks pr2 = Blocks pr1 \<and> Header pr2 = Header pr1
   \<and> blockOffset pr2 = blockOffset pr1
   \<and> (tr2 = tr1 \<and> reader pr2 = reader pr1 \<or> tr2 = tr1 @ [EvClose] \<and> reader pr2 = None)"
  by (auto simp: advance_def split: if_splits)

lemma read_payload_cases:
  obtains (quiet) e out' where
      "read_payload chunk plen ib m (pr, out, tr) = Return e (pr, out', tr)"
    | (read) s bs err s' e pr' cl where
      "reader pr = Some s"
      "stream_Read chunk s (min (plen - length out) (unat (EndOffset m - pos pr))) = (bs, err, s')"
      "read_payload chunk plen ib m (pr, out, tr)
         = Return e (pr', out @ bs,
             tr @ EvStreamRead (min (plen - length out) (unat (EndOffset m - pos pr))) (length bs) # cl)"
      "pos pr' = pos pr + of_nat (length bs)"
      "cl = [] \<and> reader pr' = Some s'
         \<or> cl = [EvClose] \<and> reader pr' = None \<and> err \<noteq> Some StreamFailure"
proof (cases "pos pr < EndOffset m")
  case False
  then have "read_payload chunk plen ib m (pr, out, tr) = Return None (pr, out, tr)"
    by (simp add: read_payload_def)
  then show ?thesis by (rule quiet)
next
  case lt: True
  let ?readTill = "min (int plen)
      (sint (word_of_int (int (length out) + sint (EndOffset m - pos pr)) :: u64))"
  show ?thesis
  proof (cases "?readTill < int (length out)")
    case True
    with lt have "read_payload chunk plen ib m (pr, out, tr)
        = Return (Some (Panic SliceBounds)) (pr, [], tr)"
      by (simp add: read_payload_def Let_def)
    then show ?thesis by (rule quiet)
  next
    case False
    then have ge: "int (length out) \<le> ?readTill" by (simp only: not_less)
    let ?req = "min (plen - length out) (unat (EndOffset m - pos pr))"
    have req: "nat (?readTill - int (length out)) = ?req"
      by (rule readTill_request [OF ge])
    show ?thesis
    proof (cases "reader pr")
      case None
      with lt False have "read_payload chunk plen ib m (pr, out, tr)
          = Return (Some (Panic NilDereference)) (pr, [], tr)"
        by (simp add: read_payload_def Let_def)
      then show ?thesis by (rule quiet)
    next
      case (Some s)
      obtain bs err s' where sr: "stream_Read chunk s ?req = (bs, err, s')"
        by (cases "stream_Read chunk s ?req") auto
      let ?pr1 = "pr\<lparr>reader := Some s', pos := pos pr + of_nat (length bs)\<rparr>"
      let ?tr1 = "tr @ [EvStreamRead ?req (length bs)]"
      show ?thesis
      proof (cases "err \<noteq> None \<and> err \<noteq> Some EOF")
        case True
        with lt False Some sr req
        have "read_payload chunk plen ib m (pr, out, tr)
            = Return (Some SourceReadFailure) (?pr1, out @ bs, tr @ EvStreamRead ?req (length bs) # [])"
          by (simp add: read_payload_def Let_def)
        then show ?thesis by (rule read [OF Some sr]) simp_all
      next
        case ok: False
        obtain pr2 tr2 where adv: "advance ib m (?pr1, ?tr1) = (pr2, tr2)"
          by (cases "advance ib m (?pr1, ?tr1)") auto
        from lt False Some sr req ok adv
        have rp: "read_payload chunk plen ib m (pr, out, tr) = Return None (pr2, out @ bs, tr2)"
          by (simp add: read_payload_def Let_def)
        from advance_cases [OF adv] have p2: "pos pr2 = pos pr + of_nat (length bs)" by simp
        from advance_cases [OF adv]
        consider "tr2 = ?tr1" "reader pr2 = Some s'"
          | "tr2 = ?tr1 @ [EvClose]" "reader pr2 = None"
          by auto
        then show ?thesis
        proof cases
          case 1
          with rp have "read_payload chunk plen ib m (pr, out, tr)
              = Return None (pr2, out @ bs, tr @ EvStreamRead ?req (length bs) # [])"
            by simp
          then show ?thesis by (rule read [OF Some sr]) (use p2 1 in simp_all)
        next
          case 2
          with rp have rp': "read_payload chunk plen ib m (pr, out, tr)
              = Return None (pr2, out @ bs, tr @ EvStreamRead ?req (length bs) # [EvClose])"
            by simp
          from ok stream_Read_facts [OF sr] have ne: "err \<noteq> Some StreamFailure" by auto
          have cl: "[EvClose] = [] \<and> reader pr2 = Some s'
              \<or> [EvClose] = [EvClose] \<and> reader pr2 = None \<and> err \<noteq> Some StreamFailure"
            using 2(2) ne by blast
          show ?thesis by (rule read [OF Some sr rp' p2 cl])
        qed
      qed
    qed
  qed
qed

lemma opened_reader_pos [simp]: "opened_reader ib m (pr\<lparr>pos := p\<rparr>) = opened_reader ib m pr"
  by (simp add: opened_reader_def split: option.splits)

lemma open_events_pos [simp]: "open_events ib m (pr\<lparr>pos := p\<rparr>) = open_events ib m pr"
  by (simp add: open_events_def split: option.splits)

lemma Read_cases:
  obtains (silent) res pr' where
      "Read chunk pr plen = (res, pr', [])" "reader pr' = reader pr"
      "length (Blocks pr) \<le> blockID pr \<or> pos pr < of_nat (length (Header pr))
         \<or> (\<exists>rb. Blocks pr ! blockID pr = PRaw rb)
         \<or> (\<exists>ib. Blocks pr ! blockID pr = PItem ib \<and> length (Meta ib) \<le> innerBlockID pr)"
    | (early) ib e p out' where
      "blockID pr < length (Blocks pr)" "Blocks pr ! blockID pr = PItem ib"
      "innerBlockID pr < length (Meta ib)"
      "Read chunk pr plen
         = ((out', e), pr\<lparr>reader := opened_reader ib (Meta ib ! innerBlockID pr) pr, pos := p\<rparr>,
            open_events ib (Meta ib ! innerBlockID pr) pr)"
    | (payload) ib p out2 e pr' out' tr' where
      "blockID pr < length (Blocks pr)" "Blocks pr ! blockID pr = PItem ib"
      "innerBlockID pr < length (Meta ib)"
      "read_payload chunk plen ib (Meta ib ! innerBlockID pr)
         (pr\<lparr>reader := opened_reader ib (Meta ib ! innerBlockID pr) pr, pos := p\<rparr>, out2,
          open_events ib (Meta ib ! innerBlockID pr) pr) = Return e (pr', out', tr')"
      "Read chunk pr plen = ((out', e), pr', tr')"
proof (cases "length (Blocks pr) \<le> blockID pr")
  case True
  then have "Read chunk pr plen = (([], Some EOF), pr, [])" by (simp add: Read_def)
  then show ?thesis using True by (intro silent [of "([], Some EOF)" pr]) simp_all
next
  case inb: False
  let ?blk = "\<lambda>st. case Blocks pr ! blockID pr of
                 PRaw rawBlock \<Rightarrow> Read_raw plen rawBlock st
               | PItem itemBlock \<Rightarrow> Read_item chunk plen itemBlock st"
  have R: "Read chunk pr plen =
      (case and_then (copy_step plen (of_nat (length (Header pr))) (Header pr) 0 (pr, [], [])) ?blk of
         Next (pr', out, tr) \<Rightarrow> ((out, None), pr', tr)
       | Return e (pr', out, tr) \<Rightarrow> ((out, e), pr', tr))"
    using inb by (simp add: Read_def)
  show ?thesis
  proof (cases rule: copy_step_cases [of plen "of_nat (length (Header pr))" "Header pr" 0 pr "[]" "[]"])
    case (ret e p out')
    then have rd: "Read chunk pr plen = ((out', e), pr\<lparr>pos := p\<rparr>, [])"
      by (simp add: R and_then_def)
    have "pos pr < of_nat (length (Header pr))"
    proof (rule ccontr)
      assume "\<not> pos pr < of_nat (length (Header pr))"
      then have "copy_step plen (of_nat (length (Header pr))) (Header pr) 0 (pr, [], [])
          = Next (pr, [], [])" by (simp add: copy_step_def)
      with ret show False by simp
    qed
    with rd show ?thesis by (intro silent [of "(out', e)" "pr\<lparr>pos := p\<rparr>"]) simp_all
  next
    case (nxt p1 out1)
    show ?thesis
    proof (cases "Blocks pr ! blockID pr")
      case (PRaw rb)
      obtain e p b i out' where
        "Read_raw plen rb (pr\<lparr>pos := p1\<rparr>, out1, [])
           = Return e (pr\<lparr>pos := p1, pos := p, blockID := b, innerBlockID := i\<rparr>, out', [])"
        by (rule Read_raw_cases [of plen rb "pr\<lparr>pos := p1\<rparr>" out1 "[]"])
      with nxt PRaw have "Read chunk pr plen
          = ((out', e), pr\<lparr>pos := p, blockID := b, innerBlockID := i\<rparr>, [])"
        by (simp add: R and_then_def)
      then show ?thesis using PRaw
        by (intro silent [of "(out', e)" "pr\<lparr>pos := p, blockID := b, innerBlockID := i\<rparr>"])
          simp_all
    next
      case (PItem ib)
      show ?thesis
      proof (cases "innerBlockID pr < length (Meta ib)")
        case False
        with nxt PItem have "Read chunk pr plen
            = (([], Some (Panic IndexOutOfRange)), pr\<lparr>pos := p1\<rparr>, [])"
          by (simp add: R and_then_def Read_item_def)
        then show ?thesis using PItem False
          by (intro silent [of "([], Some (Panic IndexOutOfRange))" "pr\<lparr>pos := p1\<rparr>"]) simp_all
      next
        case True
        then have inr: "innerBlockID (pr\<lparr>pos := p1\<rparr>) < length (Meta ib)" by simp
        from inb have inb': "blockID pr < length (Blocks pr)" by simp
        from inr show ?thesis
        proof (cases rule: Read_item_cases [where chunk = chunk and plen = plen and out = out1
              and tr = "[]"])
          case ea: (early e p out')
          with nxt PItem have "Read chunk pr plen
              = ((out', e), pr\<lparr>reader := opened_reader ib (Meta ib ! innerBlockID pr) pr, pos := p\<rparr>,
                 open_events ib (Meta ib ! innerBlockID pr) pr)"
            by (simp add: R and_then_def)
          with inb' PItem True show ?thesis by (rule early)
        next
          case pa: (payload p out2)
          obtain e pr' out' tr' where rp:
            "read_payload chunk plen ib (Meta ib ! innerBlockID pr)
               (pr\<lparr>reader := opened_reader ib (Meta ib ! innerBlockID pr) pr, pos := p\<rparr>, out2,
                open_events ib (Meta ib ! innerBlockID pr) pr) = Return e (pr', out', tr')"
            by (rule read_payload_cases [of chunk plen ib "Meta ib ! innerBlockID pr"
                  "pr\<lparr>reader := opened_reader ib (Meta ib ! innerBlockID pr) pr, pos := p\<rparr>" out2
                  "open_events ib (Meta ib ! innerBlockID pr) pr"]) blast+
          with nxt PItem pa have "Read chunk pr plen = ((out', e), pr', tr')"
            by (simp add: R and_then_def)
          with inb' PItem True rp show ?thesis by (rule payload)
        qed
      qed
    qed
  qed
qed

subsection \<open>What \<open>Read\<close> asks of the sources\<close>

lemma open_events_args:
  "EvOpen path off len \<in> set (open_events ib m pr)
     \<or> EvOpenFailed path off len \<in> set (open_events ib m pr) \<Longrightarrow>
   reader pr = None \<and> (\<exists>it. item_Item ib = Some it \<and> path = Path it
     \<and> off = ItemOffset m + blockOffset pr \<and> len = Size it - off)"
  by (cases "reader pr"; cases "item_Item ib")
    (auto simp: open_events_def Let_def split: option.splits)

lemma open_events_is_open: "ev \<in> set (open_events ib m pr) \<Longrightarrow> is_open ev"
  by (auto simp: open_events_def Let_def split: option.splits)

lemma open_events_first:
  "reader pr = None \<Longrightarrow> item_Item ib = Some it \<Longrightarrow>
   open_events ib m pr = [EvOpen (Path it) (ItemOffset m + blockOffset pr)
                            (Size it - (ItemOffset m + blockOffset pr))]
   \<or> open_events ib m pr = [EvOpenFailed (Path it) (ItemOffset m + blockOffset pr)
                            (Size it - (ItemOffset m + blockOffset pr))]"
  by (auto simp: open_events_def Let_def split: option.splits)

lemma read_payload_events:
  assumes "read_payload chunk plen ib m (pr, out, tr) = Return e (pr', out', tr')"
  shows "tr' = tr \<or> (\<exists>req got cl. tr' = tr @ EvStreamRead req got # cl \<and> (cl = [] \<or> cl = [EvClose])
      \<and> got \<le> req \<and> out' = out @ drop (length out) out' \<and> length out' = length out + got
      \<and> pos pr' = pos pr + of_nat got
      \<and> req = min (plen - length out) (unat (EndOffset m - pos pr)))"
proof (cases rule: read_payload_cases [of chunk plen ib m pr out tr])
  case (quiet e out')
  with assms show ?thesis by simp
next
  case (read s bs err s' e1 pr1 cl)
  from stream_Read_facts [OF read(2)] have "length bs \<le> min (plen - length out) (unat (EndOffset m - pos pr))"
    by simp
  with assms read show ?thesis by auto
qed

lemma open_not_stream_read: "is_open ev \<Longrightarrow> \<not> is_stream_read ev"
  by (cases ev) simp_all

lemma item_reader_Read5:
  "Read chunk item_reader 5
     = (([0x0a, 0x0a, 0x0a, 0x0a, 0x03], None),
        item_reader\<lparr>reader := Some \<lparr>pending = [0x01, 0x02, 0x03, 0x04, 0x05, 0x06, 0x07, 0x08],
                                       closed = False\<rparr>, pos := 5\<rparr>,
        [EvOpen ''a'' 0 8])"
  by (simp add: Read_def item_reader_def and_then_def copy_step_def Read_item_def
      open_reader_def item_a_def sample_handler_def CidOffset_def)

lemma item_reader_Read8:
  "Read (\<lambda>req avail. req) item_reader 8
     = (([0x0a, 0x0a, 0x0a, 0x0a, 0x03, 0xAA, 0xBB, 0x01], None),
        item_reader\<lparr>pos := 8, blockID := 1\<rparr>,
        [EvOpen ''a'' 0 8, EvStreamRead 1 1, EvClose])"
  by (simp add: Read_def item_reader_def and_then_def copy_step_def Read_item_def
      open_reader_def item_a_def sample_handler_def CidOffset_def BlockOffset_def EndOffset_def
      read_payload_def stream_Read_def advance_def)

text \<open>
  C8. Whenever \<open>Read\<close> calls the handler (successfully or not), the reader held no
  stream and its current block is an item block; with \<open>k\<close> the reader's current entry
  of that block, the call asks for the item's path from the byte offset
  \<open>ItemOffset k + blockOffset\<close>, with length the item's declared size minus that
  offset, so to the end of the item. Conversely a reader past the header whose current
  block is an item block with its item set and which holds no stream makes exactly this
  call first. (\<open>blockOffset\<close> is the reader's count of bytes of the entry already
  consumed; it is zero for a reader built by \<open>NewPieceReader\<close>.)
\<close>

theorem Read_opens_at_entry_offset:
  "(\<forall>path off len.
      EvOpen path off len \<in> set (snd (snd (Read chunk pr plen)))
        \<or> EvOpenFailed path off len \<in> set (snd (snd (Read chunk pr plen))) \<longrightarrow>
      reader pr = None
      \<and> (\<exists>ib it. blockID pr < length (Blocks pr) \<and> Blocks pr ! blockID pr = PItem ib
            \<and> innerBlockID pr < length (Meta ib) \<and> item_Item ib = Some it
            \<and> path = Path it
            \<and> off = ItemOffset (Meta ib ! innerBlockID pr) + blockOffset pr
            \<and> len = Size it - off))
   \<and> (\<forall>ib it.
        blockID pr < length (Blocks pr) \<and> Blocks pr ! blockID pr = PItem ib
        \<and> innerBlockID pr < length (Meta ib) \<and> item_Item ib = Some it
        \<and> reader pr = None \<and> \<not> pos pr < of_nat (length (Header pr)) \<longrightarrow>
        (\<exists>rest. snd (snd (Read chunk pr plen))
                  = EvOpen (Path it) (ItemOffset (Meta ib ! innerBlockID pr) + blockOffset pr)
                      (Size it - (ItemOffset (Meta ib ! innerBlockID pr) + blockOffset pr)) # rest
               \<or> snd (snd (Read chunk pr plen))
                  = EvOpenFailed (Path it) (ItemOffset (Meta ib ! innerBlockID pr) + blockOffset pr)
                      (Size it - (ItemOffset (Meta ib ! innerBlockID pr) + blockOffset pr)) # rest))"
proof (cases rule: Read_cases [of chunk pr plen])
  case (silent res pr')
  then show ?thesis by auto
next
  case (early ib e p out')
  let ?m = "Meta ib ! innerBlockID pr"
  have tr: "snd (snd (Read chunk pr plen)) = open_events ib ?m pr" using early(4) by simp
  have A: "reader pr = None \<and> (\<exists>it. item_Item ib = Some it \<and> path = Path it
     \<and> off = ItemOffset ?m + blockOffset pr \<and> len = Size it - off)"
    if "EvOpen path off len \<in> set (snd (snd (Read chunk pr plen)))
        \<or> EvOpenFailed path off len \<in> set (snd (snd (Read chunk pr plen)))" for path off len
    using that open_events_args [of path off len ib ?m pr] by (simp only: tr)
  have B: "\<exists>rest. snd (snd (Read chunk pr plen))
                  = EvOpen (Path it) (ItemOffset ?m + blockOffset pr)
                      (Size it - (ItemOffset ?m + blockOffset pr)) # rest
               \<or> snd (snd (Read chunk pr plen))
                  = EvOpenFailed (Path it) (ItemOffset ?m + blockOffset pr)
                      (Size it - (ItemOffset ?m + blockOffset pr)) # rest"
    if "reader pr = None" "item_Item ib = Some it" for it
    using open_events_first [OF that, of ?m] by (auto simp only: tr)
  from A B early(1-3) show ?thesis by (simp (no_asm_simp); blast)
next
  case (payload ib p out2 e pr' out' tr')
  let ?m = "Meta ib ! innerBlockID pr"
  have tr: "snd (snd (Read chunk pr plen)) = tr'" using payload(5) by simp
  from read_payload_events [OF payload(4)]
  obtain rest where tr': "tr' = open_events ib ?m pr @ rest" "\<forall>ev \<in> set rest. \<not> is_open ev"
    by auto
  have A: "reader pr = None \<and> (\<exists>it. item_Item ib = Some it \<and> path = Path it
     \<and> off = ItemOffset ?m + blockOffset pr \<and> len = Size it - off)"
    if "EvOpen path off len \<in> set (snd (snd (Read chunk pr plen)))
        \<or> EvOpenFailed path off len \<in> set (snd (snd (Read chunk pr plen)))" for path off len
  proof -
    from that tr tr' have "EvOpen path off len \<in> set (open_events ib ?m pr)
        \<or> EvOpenFailed path off len \<in> set (open_events ib ?m pr)"
      by auto
    then show ?thesis by (rule open_events_args)
  qed
  have B: "\<exists>rest. snd (snd (Read chunk pr plen))
                  = EvOpen (Path it) (ItemOffset ?m + blockOffset pr)
                      (Size it - (ItemOffset ?m + blockOffset pr)) # rest
               \<or> snd (snd (Read chunk pr plen))
                  = EvOpenFailed (Path it) (ItemOffset ?m + blockOffset pr)
                      (Size it - (ItemOffset ?m + blockOffset pr)) # rest"
    if "reader pr = None" "item_Item ib = Some it" for it
    using open_events_first [OF that, of ?m] tr tr'(1) by auto
  from A B payload(1-3) show ?thesis by (simp (no_asm_simp); blast)
qed

theorem Read_opens_at_entry_offset_witness:
  "EvOpen ''a'' 0 8 \<in> set (snd (snd (Read (\<lambda>req avail. req) item_reader 5)))
   \<and> reader item_reader = None
   \<and> (\<exists>ib it. Blocks item_reader ! blockID item_reader = PItem ib \<and> item_Item ib = Some it
         \<and> ''a'' = Path it
         \<and> 0 = ItemOffset (Meta ib ! innerBlockID item_reader) + blockOffset item_reader
         \<and> 8 = Size it - 0)"
proof -
  have ev: "EvOpen ''a'' 0 8 \<in> set (snd (snd (Read (\<lambda>req avail. req) item_reader 5)))"
    by (simp add: item_reader_Read5)
  from Read_opens_at_entry_offset [of "\<lambda>req avail. req" item_reader 5, THEN conjunct1,
      rule_format, of "''a''" 0 8] ev
  show ?thesis by auto
qed

text \<open>
  C10. A call of \<open>Read\<close> reads the source stream at most once. When it does, the
  current block is an item block and, with \<open>k\<close> its current entry, \<open>n\<close> the bytes
  already in the buffer (the bytes returned less the \<open>got\<close> bytes delivered) and \<open>p\<close>
  the piece position at that moment (the final position less \<open>got\<close>), it asks for
  exactly \<open>min (plen - n) (EndOffset k - p)\<close> bytes, and receives no more: never
  beyond the free space of the buffer nor beyond the end of the entry's payload.
\<close>

theorem stream_request_bounded:
  assumes "Read chunk pr plen = ((out, err), pr', tr)"
  shows "length (filter is_stream_read tr) \<le> 1
    \<and> (\<forall>req got. EvStreamRead req got \<in> set tr \<longrightarrow>
          got \<le> req \<and> got \<le> length out
          \<and> req \<le> plen - (length out - got)
          \<and> (\<exists>ib. blockID pr < length (Blocks pr) \<and> Blocks pr ! blockID pr = PItem ib
                \<and> innerBlockID pr < length (Meta ib)
                \<and> req = min (plen - (length out - got))
                          (unat (EndOffset (Meta ib ! innerBlockID pr) - (pos pr' - of_nat got)))))"
proof (cases rule: Read_cases [of chunk pr plen])
  case (silent res pr')
  with assms show ?thesis by simp
next
  case (early ib e p out')
  with assms have "tr = open_events ib (Meta ib ! innerBlockID pr) pr" by simp
  then have "\<forall>ev \<in> set tr. is_open ev" using open_events_is_open by blast
  then have "\<forall>ev \<in> set tr. \<not> is_stream_read ev" using open_not_stream_read by blast
  then show ?thesis by (auto simp: filter_empty_conv [THEN iffD2])
next
  case (payload ib p out2 e pr1 out1 tr1)
  let ?m = "Meta ib ! innerBlockID pr"
  let ?op = "open_events ib ?m pr"
  from payload(5) assms have eq: "out1 = out" "pr1 = pr'" "tr1 = tr" by simp_all
  have nop: "\<forall>ev \<in> set ?op. \<not> is_stream_read ev"
    using open_events_is_open [of _ ib ?m pr] open_not_stream_read by blast
  then have f0: "filter is_stream_read ?op = []" by (simp add: filter_empty_conv)
  from read_payload_events [OF payload(4)]
  consider (quiet) "tr1 = ?op"
    | (read) req got cl where "tr1 = ?op @ EvStreamRead req got # cl" "cl = [] \<or> cl = [EvClose]"
        "got \<le> req" "length out1 = length out2 + got" "pos pr1 = p + of_nat got"
        "req = min (plen - length out2) (unat (EndOffset ?m - p))"
    by auto
  then show ?thesis
  proof cases
    case quiet
    with eq f0 nop show ?thesis by auto
  next
    case (read req got cl)
    note tr1 = read(1) and cl = read(2) and le = read(3) and len = read(4) and ps = read(5)
      and rq = read(6)
    have one: "length (filter is_stream_read tr) \<le> 1" using tr1 cl eq f0 by auto
    have mem: "req' = req \<and> got' = got" if "EvStreamRead req' got' \<in> set tr" for req' got'
      using that tr1 cl eq nop by auto
    have n: "length out - got = length out2" using len eq by simp
    have p: "pos pr' - of_nat got = p" using ps eq by simp
    have facts: "got \<le> req \<and> got \<le> length out \<and> req \<le> plen - (length out - got)
        \<and> req = min (plen - (length out - got)) (unat (EndOffset ?m - (pos pr' - of_nat got)))"
      using le len eq rq by (simp only: n p) simp
    from one mem facts payload(1-3) show ?thesis by (simp (no_asm_simp); blast)
  qed
qed

theorem stream_request_bounded_witness:
  "EvStreamRead 1 1 \<in> set (snd (snd (Read (\<lambda>req avail. req) item_reader 8)))
   \<and> length (filter is_stream_read (snd (snd (Read (\<lambda>req avail. req) item_reader 8)))) \<le> 1
   \<and> (1 :: nat) \<le> 8 - (8 - 1)
   \<and> (\<exists>ib. Blocks item_reader ! blockID item_reader = PItem ib
         \<and> (1 :: nat) = min (8 - (8 - 1))
               (unat (EndOffset (Meta ib ! innerBlockID item_reader) - (8 - of_nat 1))))"
proof -
  have ev: "EvStreamRead 1 1 \<in> set [EvOpen ''a'' 0 8, EvStreamRead 1 1, EvClose]" by simp
  from stream_request_bounded [OF item_reader_Read8] ev
  show ?thesis by (auto simp: item_reader_Read8)
qed

subsection \<open>Open streams over a reader's lifetime\<close>

lemma live_append: "live n (xs @ ys) = live (live n xs) ys"
  by (induction n xs rule: live.induct) simp_all

lemma peak_append: "peak n (xs @ ys) = max (peak n xs) (peak (live n xs) ys)"
proof (induction xs arbitrary: n)
  case Nil
  have "n \<le> peak n ys" by (cases ys) simp_all
  then show ?case by simp
next
  case (Cons e xs)
  show ?case by (cases e) (simp_all add: Cons.IH max.assoc)
qed

lemma holds_le: "holds pr \<le> 1"
  by (simp add: holds_def split: option.splits)

lemma tracked_Nil: "reader pr' = reader pr \<Longrightarrow> tracked pr [] pr'"
  using holds_le [of pr] by (simp add: tracked_def holds_def)

lemma tracked_append: "tracked pr xs pr1 \<Longrightarrow> tracked pr1 ys pr2 \<Longrightarrow> tracked pr (xs @ ys) pr2"
  by (simp add: tracked_def peak_append live_append)

lemma tracked_open:
  "tracked pr (open_events ib m pr) (pr\<lparr>reader := opened_reader ib m pr, pos := p\<rparr>)"
  by (cases "reader pr"; cases "item_Item ib")
    (auto simp: tracked_def holds_def open_events_def opened_reader_def Let_def
      split: option.splits)

lemma tracked_payload:
  assumes "read_payload chunk plen ib m (pr, out, tr) = Return e (pr', out', tr')"
  shows "\<exists>d. tr' = tr @ d \<and> tracked pr d pr'"
proof (cases rule: read_payload_cases [of chunk plen ib m pr out tr])
  case (quiet e1 out1)
  with assms have "tr' = tr @ []" "pr' = pr" by simp_all
  then show ?thesis using tracked_Nil [of pr pr] by blast
next
  case (read s bs err s' e1 pr1 cl)
  let ?ev = "EvStreamRead (min (plen - length out) (unat (EndOffset m - pos pr))) (length bs)"
  from assms read(3) have eq: "pr1 = pr'" "tr' = tr @ ?ev # cl" by simp_all
  from stream_Read_facts [OF read(2)] have cs: "closed s' = closed s"
    and fail: "closed s \<longrightarrow> err = Some StreamFailure" by simp_all
  from read(5) show ?thesis
  proof (elim disjE conjE)
    assume "cl = []" "reader pr1 = Some s'"
    with eq read(1) cs have "tracked pr (?ev # cl) pr'"
      by (simp add: tracked_def holds_def)
    with eq show ?thesis by blast
  next
    assume "cl = [EvClose]" "reader pr1 = None" "err \<noteq> Some StreamFailure"
    with eq read(1) fail have "tracked pr (?ev # cl) pr'"
      by (auto simp: tracked_def holds_def)
    with eq show ?thesis by blast
  qed
qed

lemma tracked_Read:
  assumes "Read chunk pr plen = (res, pr', tr)"
  shows "tracked pr tr pr'"
proof (cases rule: Read_cases [of chunk pr plen])
  case (silent res1 pr1)
  with assms show ?thesis by (simp add: tracked_Nil)
next
  case (early ib e p out')
  with assms show ?thesis using tracked_open [of pr ib "Meta ib ! innerBlockID pr" p] by simp
next
  case (payload ib p out2 e pr1 out1 tr1)
  from tracked_payload [OF payload(4)] obtain d where
    d: "tr1 = open_events ib (Meta ib ! innerBlockID pr) pr @ d"
    "tracked (pr\<lparr>reader := opened_reader ib (Meta ib ! innerBlockID pr) pr, pos := p\<rparr>) d pr1"
    by blast
  from tracked_append [OF tracked_open d(2)] d(1) payload(5) assms show ?thesis by simp
qed

lemma tracked_Close:
  assumes "Close reclose pr = (e, pr', tr)"
  shows "tracked pr tr pr'"
  using assms holds_le [of pr]
  by (auto simp: Close_def tracked_def holds_def split: option.splits if_splits)

lemma tracked_run_calls:
  "run_calls chunk reclose pr calls = (pr', tr) \<Longrightarrow> tracked pr tr pr'"
proof (induction calls arbitrary: pr pr' tr)
  case Nil
  then show ?case by (simp add: tracked_Nil)
next
  case (Cons c calls)
  show ?case
  proof (cases c)
    case (CallRead plen)
    obtain res pr1 tr1 where r: "Read chunk pr plen = (res, pr1, tr1)"
      by (cases "Read chunk pr plen") auto
    obtain pr2 tr2 where rest: "run_calls chunk reclose pr1 calls = (pr2, tr2)"
      by (cases "run_calls chunk reclose pr1 calls") auto
    from Cons.prems CallRead r rest have "pr' = pr2" "tr = tr1 @ tr2" by simp_all
    with tracked_append [OF tracked_Read [OF r] Cons.IH [OF rest]] show ?thesis by simp
  next
    case CallClose
    obtain e pr1 tr1 where r: "Close reclose pr = (e, pr1, tr1)"
      by (cases "Close reclose pr") auto
    obtain pr2 tr2 where rest: "run_calls chunk reclose pr1 calls = (pr2, tr2)"
      by (cases "run_calls chunk reclose pr1 calls") auto
    from Cons.prems CallClose r rest have "pr' = pr2" "tr = tr1 @ tr2" by simp_all
    with tracked_append [OF tracked_Close [OF r] Cons.IH [OF rest]] show ?thesis by simp
  qed
qed

lemma MakeCopy_no_stream: "MakeCopy pr offset = Inr pr' \<Longrightarrow> reader pr' = None"
  by (auto simp: MakeCopy_def Let_def split: if_splits PieceBlock.splits)

lemma header_only_silent:
  assumes "pos pr < of_nat (length (Header pr))" "plen \<le> length (Header pr) - unat (pos pr)"
  shows "snd (snd (Read chunk pr plen)) = []"
proof (cases "length (Blocks pr) \<le> blockID pr")
  case True
  then show ?thesis by (simp add: Read_def)
next
  case False
  have "\<exists>e st. copy_step plen (of_nat (length (Header pr))) (Header pr) 0 (pr, [], [])
      = Return e (fst st, fst (snd st), [])"
    using assms by (auto simp: copy_step_def Let_def min_def)
  then obtain e st where "copy_step plen (of_nat (length (Header pr))) (Header pr) 0 (pr, [], [])
      = Return e (fst st, fst (snd st), [])" by blast
  with False show ?thesis by (simp add: Read_def and_then_def)
qed

lemma open_events_no_reader: "ev \<in> set (open_events ib m pr) \<Longrightarrow> reader pr = None"
  by (cases "reader pr") (auto simp: open_events_def)

lemma Read_open_needs_item:
  assumes "ev \<in> set (snd (snd (Read chunk pr plen)))" "is_open ev"
  shows "reader pr = None
    \<and> (\<exists>ib. blockID pr < length (Blocks pr) \<and> Blocks pr ! blockID pr = PItem ib)"
proof (cases rule: Read_cases [of chunk pr plen])
  case (silent res pr')
  with assms show ?thesis by simp
next
  case (early ib e p out')
  with assms(1) have "ev \<in> set (open_events ib (Meta ib ! innerBlockID pr) pr)" by simp
  from open_events_no_reader [OF this] early(1,2) show ?thesis by blast
next
  case (payload ib p out2 e pr' out' tr')
  from read_payload_events [OF payload(4)] assms payload(5)
  have "ev \<in> set (open_events ib (Meta ib ! innerBlockID pr) pr)" by auto
  from open_events_no_reader [OF this] payload(1,2) show ?thesis by blast
qed

lemma item_reader_MakeCopy4: "MakeCopy item_reader 4 = Inr (item_reader\<lparr>pos := 4\<rparr>)"
  by (simp add: MakeCopy_def item_reader_def BinarySearchFunc_def bsearch_loop.simps)

lemma item_reader_calls:
  "snd (run_calls (\<lambda>req avail. req) None item_reader [CallRead 5, CallClose, CallClose])
     = [EvOpen ''a'' 0 8, EvClose, EvClose]"
  by (simp add: item_reader_Read5 Close_def)

text \<open>
  C6, as the code has it. Over any sequence of \<open>Read\<close> and \<open>Close\<close> calls, from any
  reader, at most one source stream is open at any moment, and the streams open at the end
  are the ones the reader holds. \<open>MakeCopy\<close> returns a reader that holds no stream. A
  call of \<open>Read\<close> calls the handler only when the reader holds no stream and its
  current block is an item block, and not when the call fills its buffer from the header
  alone; so a call on a raw block opens nothing. The handler is called on entering the
  item block, before the entry's prefix and identifier bytes are copied.
\<close>

theorem at_most_one_stream_open:
  "peak (holds pr) (snd (run_calls chunk reclose pr calls)) \<le> 1
   \<and> live (holds pr) (snd (run_calls chunk reclose pr calls))
       = holds (fst (run_calls chunk reclose pr calls))
   \<and> (\<forall>offset pr'. MakeCopy pr offset = Inr pr' \<longrightarrow> reader pr' = None)
   \<and> (\<forall>plen ev. ev \<in> set (snd (snd (Read chunk pr plen))) \<and> is_open ev \<longrightarrow>
         reader pr = None
         \<and> (\<exists>ib. blockID pr < length (Blocks pr) \<and> Blocks pr ! blockID pr = PItem ib)
         \<and> (pos pr < of_nat (length (Header pr)) \<longrightarrow> length (Header pr) - unat (pos pr) < plen))"
proof -
  have "tracked pr (snd (run_calls chunk reclose pr calls)) (fst (run_calls chunk reclose pr calls))"
    by (rule tracked_run_calls) simp
  then have a: "peak (holds pr) (snd (run_calls chunk reclose pr calls)) \<le> 1
      \<and> live (holds pr) (snd (run_calls chunk reclose pr calls))
          = holds (fst (run_calls chunk reclose pr calls))"
    by (simp add: tracked_def)
  have b: "reader pr' = None" if "MakeCopy pr offset = Inr pr'" for offset pr'
    using that by (rule MakeCopy_no_stream)
  have c: "reader pr = None
         \<and> (\<exists>ib. blockID pr < length (Blocks pr) \<and> Blocks pr ! blockID pr = PItem ib)
         \<and> (pos pr < of_nat (length (Header pr)) \<longrightarrow> length (Header pr) - unat (pos pr) < plen)"
    if "ev \<in> set (snd (snd (Read chunk pr plen)))" "is_open ev" for plen ev
  proof -
    have "length (Header pr) - unat (pos pr) < plen" if "pos pr < of_nat (length (Header pr))"
    proof (rule ccontr)
      assume "\<not> length (Header pr) - unat (pos pr) < plen"
      then have "plen \<le> length (Header pr) - unat (pos pr)" by simp
      from header_only_silent [OF that this, of chunk] \<open>ev \<in> set (snd (snd (Read chunk pr plen)))\<close>
      show False by simp
    qed
    with Read_open_needs_item [OF that] show ?thesis by blast
  qed
  from a b c show ?thesis by blast
qed

theorem at_most_one_stream_open_witness:
  "snd (run_calls (\<lambda>req avail. req) None item_reader [CallRead 5, CallClose, CallClose])
     = [EvOpen ''a'' 0 8, EvClose, EvClose]
   \<and> peak (holds item_reader) [EvOpen ''a'' 0 8, EvClose, EvClose] \<le> 1
   \<and> MakeCopy item_reader 4 = Inr (item_reader\<lparr>pos := 4\<rparr>)
   \<and> reader (item_reader\<lparr>pos := 4\<rparr>) = None
   \<and> EvOpen ''a'' 0 8 \<in> set (snd (snd (Read (\<lambda>req avail. req) item_reader 5)))
   \<and> is_open (EvOpen ''a'' 0 8)
   \<and> reader item_reader = None
   \<and> (\<exists>ib. Blocks item_reader ! blockID item_reader = PItem ib)
   \<and> length (Header item_reader) - unat (pos item_reader) < 5"
proof -
  note t = at_most_one_stream_open [of item_reader "\<lambda>req avail. req" None
      "[CallRead 5, CallClose, CallClose]"]
  have ev: "EvOpen ''a'' 0 8 \<in> set (snd (snd (Read (\<lambda>req avail. req) item_reader 5)))
      \<and> is_open (EvOpen ''a'' 0 8)"
    by (simp add: item_reader_Read5)
  have p: "pos item_reader < of_nat (length (Header item_reader))"
    by (simp add: item_reader_def)
  from t have "peak (holds item_reader) [EvOpen ''a'' 0 8, EvClose, EvClose] \<le> 1"
    by (simp only: item_reader_calls)
  moreover from t item_reader_MakeCopy4 have "reader (item_reader\<lparr>pos := 4\<rparr>) = None" by blast
  moreover from t ev p have "reader item_reader = None
      \<and> (\<exists>ib. Blocks item_reader ! blockID item_reader = PItem ib)
      \<and> length (Header item_reader) - unat (pos item_reader) < 5" by blast
  ultimately show ?thesis using ev item_reader_calls item_reader_MakeCopy4 by blast
qed

text \<open>
  C6 as stated fails: after a first call has returned the four header bytes, a call with a
  buffer of one byte copies only the length prefix of the item entry and opens the
  item's stream.
\<close>

theorem prefix_only_Read_opens_stream:
  "Read (\<lambda>req avail. req) item_reader 4
     = (([0x0a, 0x0a, 0x0a, 0x0a], None), item_reader\<lparr>pos := 4\<rparr>, [])
   \<and> Read (\<lambda>req avail. req) (item_reader\<lparr>pos := 4\<rparr>) 1
     = (([0x03], None),
        item_reader\<lparr>reader := Some \<lparr>pending = [0x01, 0x02, 0x03, 0x04, 0x05, 0x06, 0x07, 0x08],
                                       closed = False\<rparr>, pos := 5\<rparr>,
        [EvOpen ''a'' 0 8])"
  by (simp add: Read_def item_reader_def and_then_def copy_step_def Read_item_def
      open_reader_def item_a_def sample_handler_def CidOffset_def)

subsection \<open>Copying a segment of the piece\<close>

lemma unat_of_nat63: "n < 2 ^ 63 \<Longrightarrow> unat (of_nat n :: u64) = n"
  by (rule of_nat_inverse [OF refl]) simp

lemma take_length_prefix:
  "ys = take n xs \<Longrightarrow> take (length ys) xs = ys"
  by (simp add: min_def take_all)

lemma copy_step_segment:
  fixes piece :: "byte list"
  assumes seg: "take (length src) (drop a piece) = src"
    and bound: "a + length src < 2 ^ 63"
    and pos: "unat (pos pr) = P0 + length out"
    and out: "take (length out) (drop P0 piece) = out"
    and ge: "a \<le> P0 + length out"
    and room: "length out < plen"
  obtains (full) p out' where
      "copy_step plen (of_nat (a + length src)) src (of_nat a) (pr, out, tr)
         = Return None (pr\<lparr>pos := p\<rparr>, out', tr)"
      "length out' = plen" "unat p = P0 + length out'"
      "take (length out') (drop P0 piece) = out'"
      "P0 + length out' \<le> a + length src" "length out < length out'"
    | (more) p out' where
      "copy_step plen (of_nat (a + length src)) src (of_nat a) (pr, out, tr)
         = Next (pr\<lparr>pos := p\<rparr>, out', tr)"
      "length out' < plen" "unat p = P0 + length out'"
      "take (length out') (drop P0 piece) = out'"
      "P0 + length out' = max (P0 + length out) (a + length src)"
      "length out \<le> length out'"
proof (cases "P0 + length out < a + length src")
  case False
  have ub: "unat (of_nat (a + length src) :: u64) = a + length src"
    using bound by (rule unat_of_nat63)
  from False pos ub have "\<not> pos pr < of_nat (a + length src)"
    by (simp add: word_less_nat_alt)
  then have "copy_step plen (of_nat (a + length src)) src (of_nat a) (pr, out, tr)
      = Next (pr\<lparr>pos := pos pr\<rparr>, out, tr)" by (simp add: copy_step_def)
  then show ?thesis
    using room pos out False by (intro more [of "pos pr" out]) (simp_all add: max_def)
next
  case True
  let ?P = "P0 + length out"
  have ub: "unat (of_nat (a + length src) :: u64) = a + length src"
    using bound by (rule unat_of_nat63)
  have ua: "unat (of_nat a :: u64) = a" using bound by (intro unat_of_nat63) simp
  from True pos ub have lt: "pos pr < of_nat (a + length src)"
    by (simp add: word_less_nat_alt)
  have "of_nat a \<le> pos pr" using ge pos ua by (simp add: word_le_nat_alt)
  then have idx: "unat (pos pr - of_nat a) = ?P - a"
    using pos ua by (simp add: unat_sub)
  have nopanic: "\<not> length src < unat (pos pr - of_nat a)" using idx True by simp
  define copied where "copied = take (plen - length out) (drop (?P - a) src)"
  have "drop (?P - a) src = drop (?P - a) (take (length src) (drop a piece))"
    by (simp only: seg)
  also have "\<dots> = take (length src - (?P - a)) (drop ?P piece)"
    using ge by (simp add: drop_take)
  finally have "copied = take (min (plen - length out) (length src - (?P - a))) (drop ?P piece)"
    by (simp add: copied_def)
  then have cp: "take (length copied) (drop ?P piece) = copied"
    by (rule take_length_prefix)
  have clen: "length copied \<le> length src - (?P - a)" "length copied \<le> plen - length out"
    by (simp_all add: copied_def)
  have out': "take (length (out @ copied)) (drop P0 piece) = out @ copied"
  proof -
    have "take (length out + length copied) (drop P0 piece)
        = take (length out) (drop P0 piece) @ take (length copied) (drop (length out) (drop P0 piece))"
      by (rule take_add)
    also have "drop (length out) (drop P0 piece) = drop ?P piece" by (simp add: add.commute)
    finally show ?thesis using out cp by simp
  qed
  have nowrap: "?P + length copied < 2 ^ 63" using clen(1) True bound by simp
  have "unat (pos pr + of_nat (length copied)) = ?P + length copied"
  proof -
    have "unat (of_nat (length copied) :: u64) = length copied"
      using nowrap by (intro unat_of_nat63) simp
    moreover have "?P + length copied < 2 ^ 64" using nowrap by simp
    ultimately show ?thesis using pos by (simp add: unat_word_ariths)
  qed
  then have pos': "unat (pos pr + of_nat (length copied)) = P0 + length (out @ copied)" by simp
  have cs: "copy_step plen (of_nat (a + length src)) src (of_nat a) (pr, out, tr)
      = (if length (out @ copied) = plen
         then Return None (pr\<lparr>pos := pos pr + of_nat (length copied)\<rparr>, out @ copied, tr)
         else Next (pr\<lparr>pos := pos pr + of_nat (length copied)\<rparr>, out @ copied, tr))"
    unfolding copy_step_def copied_def using lt nopanic by (simp add: Let_def idx)
  show ?thesis
  proof (cases "length (out @ copied) = plen")
    case isfull: True
    have "copy_step plen (of_nat (a + length src)) src (of_nat a) (pr, out, tr)
        = Return None (pr\<lparr>pos := pos pr + of_nat (length copied)\<rparr>, out @ copied, tr)"
      unfolding cs using isfull by simp
    then show ?thesis
      using isfull pos' out' clen True room
      by (intro full [of "pos pr + of_nat (length copied)" "out @ copied"]) simp_all
  next
    case notfull: False
    have c: "copy_step plen (of_nat (a + length src)) src (of_nat a) (pr, out, tr)
        = Next (pr\<lparr>pos := pos pr + of_nat (length copied)\<rparr>, out @ copied, tr)"
      unfolding cs using notfull by simp
    have lt': "length (out @ copied) < plen" using notfull clen(2) room by simp
    have "length copied = length src - (?P - a)"
    proof -
      have "length copied = min (plen - length out) (length src - (?P - a))"
        by (simp add: copied_def)
      with lt' show ?thesis by (simp add: min_def split: if_splits)
    qed
    then have "P0 + length (out @ copied) = max ?P (a + length src)"
      using True ge by (simp add: max_def)
    with c lt' pos' out' show ?thesis
      by (intro more [of "pos pr + of_nat (length copied)" "out @ copied"]) simp_all
  qed
qed


lemma take_append_split:
  "take (n + m) xs = ys @ zs \<Longrightarrow> length ys = n \<Longrightarrow> take n xs = ys \<and> take m (drop n xs) = zs"
proof -
  assume a: "take (n + m) xs = ys @ zs" and l: "length ys = n"
  have "take n xs @ take m (drop n xs) = ys @ zs" using a by (simp add: take_add)
  moreover have "length (take n xs) = length ys"
  proof -
    have "n \<le> length (take (n + m) xs)" using a l by simp
    then show ?thesis using l by simp
  qed
  ultimately show ?thesis by simp
qed

lemma Read_raw_segment:
  fixes piece :: "byte list"
  assumes blk: "take (length (raw_Varint r) + (length (raw_Cid r) + length (BlockData r)))
                  (drop s piece) = raw_Varint r @ raw_Cid r @ BlockData r"
    and off: "raw_PieceOffset r = of_nat s"
    and bound: "s + (length (raw_Varint r) + (length (raw_Cid r) + length (BlockData r))) < 2 ^ 63"
    and pos: "unat (pos pr) = P0 + length out"
    and out: "take (length out) (drop P0 piece) = out"
    and ge: "s \<le> P0 + length out"
    and le: "P0 + length out
               \<le> s + (length (raw_Varint r) + (length (raw_Cid r) + length (BlockData r)))"
    and room: "length out < plen"
  obtains (full) p out' where
      "Read_raw plen r (pr, out, tr) = Return None (pr\<lparr>pos := p\<rparr>, out', tr)"
      "length out' = plen" "unat p = P0 + length out'"
      "take (length out') (drop P0 piece) = out'"
      "P0 + length out'
         \<le> s + (length (raw_Varint r) + (length (raw_Cid r) + length (BlockData r)))"
    | (next_block) p out' where
      "Read_raw plen r (pr, out, tr)
         = Return None (pr\<lparr>pos := p, blockID := blockID pr + 1, innerBlockID := 0\<rparr>, out', tr)"
      "length out' < plen" "unat p = P0 + length out'"
      "take (length out') (drop P0 piece) = out'"
      "P0 + length out'
         = s + (length (raw_Varint r) + (length (raw_Cid r) + length (BlockData r)))"
      "length out \<le> length out'"
proof -
  let ?v = "raw_Varint r" and ?c = "raw_Cid r" and ?d = "BlockData r"
  have RR: "Read_raw plen r st =
     and_then (copy_step plen (raw_CidOffset r) ?v (raw_PieceOffset r) st)
     (\<lambda>st. and_then (copy_step plen (raw_BlockOffset r) ?c (raw_CidOffset r) st)
     (\<lambda>st. and_then (copy_step plen (raw_EndOffset r) ?d (raw_BlockOffset r) st)
     (\<lambda>(pr, out, tr). Return None (pr\<lparr>blockID := blockID pr + 1, innerBlockID := 0\<rparr>, out, tr))))"
    for st by (simp add: Read_raw_def)
  have o1: "raw_CidOffset r = of_nat (s + length ?v)"
    and o2: "raw_BlockOffset r = of_nat (s + length ?v + length ?c)"
    and o3: "raw_EndOffset r = of_nat (s + length ?v + length ?c + length ?d)"
    by (simp_all add: raw_CidOffset_def raw_BlockOffset_def raw_EndOffset_def off)
  from take_append_split [OF blk refl]
  have s1: "take (length ?v) (drop s piece) = ?v"
    and r1: "take (length ?c + length ?d) (drop (length ?v) (drop s piece)) = ?c @ ?d"
    by simp_all
  from take_append_split [OF r1 refl]
  have s2: "take (length ?c) (drop (s + length ?v) piece) = ?c"
    and s3: "take (length ?d) (drop (s + length ?v + length ?c) piece) = ?d"
    by (simp_all add: add.commute add.left_commute)
  have b1: "s + length ?v < 2 ^ 63" and b2: "s + length ?v + length ?c < 2 ^ 63"
    and b3: "s + length ?v + length ?c + length ?d < 2 ^ 63"
    using bound by simp_all
  from s1 b1 pos out ge room show ?thesis
  proof (cases rule: copy_step_segment [where tr = tr])
    case (full p out')
    then have "Read_raw plen r (pr, out, tr) = Return None (pr\<lparr>pos := p\<rparr>, out', tr)"
      by (simp add: RR and_then_def o1 off)
    with full show ?thesis using le by (intro that(1) [of p out']) simp_all
  next
    case m1: (more p1 out1)
    have pos1: "unat (pos (pr\<lparr>pos := p1\<rparr>)) = P0 + length out1" using m1 by simp
    have ge1: "s + length ?v \<le> P0 + length out1" using m1 by simp
    have le1: "P0 + length out1 \<le> s + (length ?v + (length ?c + length ?d))"
      using m1 le by simp
    from s2 b2 pos1 m1(4) ge1 m1(2) show ?thesis
    proof (cases rule: copy_step_segment [where tr = tr])
      case (full p out')
      with m1 have "Read_raw plen r (pr, out, tr) = Return None (pr\<lparr>pos := p\<rparr>, out', tr)"
        by (simp add: RR and_then_def o1 o2 off)
      with full show ?thesis by (intro that(1) [of p out']) simp_all
    next
      case m2: (more p2 out2)
      have pos2: "unat (pos (pr\<lparr>pos := p1, pos := p2\<rparr>)) = P0 + length out2" using m2 by simp
      have ge2: "s + length ?v + length ?c \<le> P0 + length out2" using m2 by simp
      have le2: "P0 + length out2 \<le> s + (length ?v + (length ?c + length ?d))"
        using m2 le1 by simp
      from s3 b3 pos2 m2(4) ge2 m2(2) show ?thesis
      proof (cases rule: copy_step_segment [where tr = tr])
        case (full p out')
        with m1 m2 have "Read_raw plen r (pr, out, tr) = Return None (pr\<lparr>pos := p\<rparr>, out', tr)"
          by (simp add: RR and_then_def o1 o2 o3 off)
        with full show ?thesis by (intro that(1) [of p out']) simp_all
      next
        case m3: (more p3 out3)
        with m1 m2 have "Read_raw plen r (pr, out, tr)
            = Return None (pr\<lparr>pos := p3, blockID := blockID pr + 1, innerBlockID := 0\<rparr>, out3, tr)"
          by (simp add: RR and_then_def o1 o2 o3 off)
        moreover have "P0 + length out3 = s + (length ?v + (length ?c + length ?d))"
          using m3 le2 by simp
        moreover have "length out \<le> length out3" using m1 m2 m3 by simp
        ultimately show ?thesis using m3 by (intro that(2) [of p3 out3]) simp_all
      qed
    qed
  qed
qed

end
